theory Spec2Isabelle
  imports Main
begin

section \<open>Strings\<close>

text \<open>
  A JavaScript string is modelled as a \<^typ>\<open>string\<close>, one \<^typ>\<open>char\<close> per code unit, for
  code units below 256. The white space of \<open>String.prototype.trim\<close> and of the regular
  expression class \<open>\s\<close> is the same set of code units; in this range it is TAB, LF, VT,
  FF, CR, SPACE and NO-BREAK SPACE.
\<close>

definition is_space :: "char \<Rightarrow> bool" where
  "is_space c = (c \<in> set [CHR 0x09, CHR 0x0A, CHR 0x0B, CHR 0x0C, CHR 0x0D, CHR 0x20, CHR 0xA0])"

definition trim :: "string \<Rightarrow> string" where
  "trim s = rev (dropWhile is_space (rev (dropWhile is_space s)))"

definition startsWith :: "string \<Rightarrow> string \<Rightarrow> bool" where
  "startsWith s p = (take (length p) s = p)"

definition endsWith :: "string \<Rightarrow> string \<Rightarrow> bool" where
  "endsWith s p = (length p \<le> length s \<and> drop (length s - length p) s = p)"

definition is_digit :: "char \<Rightarrow> bool" where
  "is_digit c = (c \<in> set ''0123456789'')"

text \<open>The test \<open>/^[0-9]+$/.test(v)\<close>: one or more characters, all of them digits.\<close>

definition all_digits :: "string \<Rightarrow> bool" where
  "all_digits v = (v \<noteq> [] \<and> list_all is_digit v)"

section \<open>Image resize: size normalisation\<close>

text \<open>
  \<open>normalizeSizeValue\<close> of \<open>App.jsx\<close>: the empty string is falsy and gives the empty
  string; otherwise the trimmed input is returned as it is when it ends with a percent
  sign, with \<open>px\<close> appended when it is a bare integer, and as it is in every other case.
\<close>

definition normalizeSizeValue :: "string \<Rightarrow> string" where
  "normalizeSizeValue raw =
     (if raw = [] then []
      else let v = trim raw in
        if endsWith v ''%'' then v
        else if all_digits v then v @ ''px''
        else v)"


section \<open>The editing surface\<close>

text \<open>
  The editing surface (the Quill editor) is an external collaborator. Its document is a
  sequence of nodes over one linear offset space, one node per offset unit: a character of
  a text run or an embedded image, each with its format attributes. An embed carries the
  identity of its blot, which is what \<open>Quill.find\<close> and \<open>editor.getIndex\<close> work with.
\<close>

datatype jsval = Undefined | VBool bool | VStr string

text \<open>JavaScript truthiness, as used by \<open>!!currentFormats[format]\<close>.\<close>

definition truthy :: "jsval \<Rightarrow> bool" where
  "truthy v = (case v of Undefined \<Rightarrow> False | VBool b \<Rightarrow> b | VStr t \<Rightarrow> t \<noteq> [])"

type_synonym attributes = "string \<Rightarrow> jsval"

definition no_attrs :: attributes where
  "no_attrs = (\<lambda>_. Undefined)"

datatype content = TextChar char | Embed nat string

record node =
  item :: content
  attrs :: attributes

record sel =
  index :: nat
  len :: nat

datatype error = OutOfRange | DetachedBlot | StoreError

record editor =
  doc :: "node list"
  selection :: "sel option"
  cursor_format :: attributes
  focused :: bool
  next_blot :: nat

definition is_embed :: "node \<Rightarrow> bool" where
  "is_embed x = (case item x of Embed _ _ \<Rightarrow> True | TextChar _ \<Rightarrow> False)"

definition is_newline :: "node \<Rightarrow> bool" where
  "is_newline x = (item x = TextChar CHR 0x0A)"

definition count_embeds :: "node list \<Rightarrow> nat" where
  "count_embeds ns = length (filter is_embed ns)"

text \<open>
  Modelled from the spec: the attribute update behind \<open>formatRange\<close>. The value
  \<open>false\<close> is the unset sentinel and clears the attribute; any other value is stored.
\<close>

definition set_attr :: "string \<Rightarrow> jsval \<Rightarrow> attributes \<Rightarrow> attributes" where
  "set_attr name v a = a(name := (if v = VBool False then Undefined else v))"

definition format_node :: "string \<Rightarrow> jsval \<Rightarrow> node \<Rightarrow> node" where
  "format_node name v x = x\<lparr>attrs := set_attr name v (attrs x)\<rparr>"

definition format_nodes :: "nat \<Rightarrow> nat \<Rightarrow> string \<Rightarrow> jsval \<Rightarrow> node list \<Rightarrow> node list" where
  "format_nodes i n name v ns =
     take i ns @ map (format_node name v) (take n (drop i ns)) @ drop (i + n) ns"

text \<open>Modelled from the spec: \<open>length()\<close> of the Document Model (\<open>editor.getLength\<close>).\<close>

definition getLength :: "editor \<Rightarrow> nat" where
  "getLength e = length (doc e)"

text \<open>
  Modelled from the spec: \<open>getSelection() -> Selection|null\<close> of the rendering surface,
  the live selection.
\<close>

definition getSelection :: "editor \<Rightarrow> sel option" where
  "getSelection e = selection e"

text \<open>
  Modelled from the spec: \<open>getSelection(true)\<close>, which gives the surface the focus before
  it reads the live selection.
\<close>

definition getSelection_focus :: "editor \<Rightarrow> editor \<times> sel option" where
  "getSelection_focus e = (e\<lparr>focused := True\<rparr>, selection e)"

text \<open>Modelled from the spec: \<open>editor.focus()\<close> gives the surface the focus.\<close>

definition focus :: "editor \<Rightarrow> editor" where
  "focus e = e\<lparr>focused := True\<rparr>"

text \<open>
  Modelled from the spec: \<open>formatRange(index, length, attr, value)\<close> (\<open>editor.formatText\<close>).
  The range is validated against the current length; an out-of-range call fails with
  \<open>OutOfRange\<close> and performs no mutation.
\<close>

definition formatText :: "nat \<Rightarrow> nat \<Rightarrow> string \<Rightarrow> jsval \<Rightarrow> editor \<Rightarrow> error + editor" where
  "formatText i n name v e =
     (if i + n \<le> length (doc e) then Inr (e\<lparr>doc := format_nodes i n name v (doc e)\<rparr>)
      else Inl OutOfRange)"

text \<open>
  Modelled from the spec: \<open>getFormatsAt(index, length)\<close> (\<open>editor.getFormat\<close>) returns the
  attribute set common to the entire range, or the attribute set at a single caret if the
  length is 0.
\<close>

definition common_attrs :: "node list \<Rightarrow> attributes" where
  "common_attrs ns =
     (\<lambda>name. case ns of [] \<Rightarrow> Undefined
        | x # xs \<Rightarrow> if list_all (\<lambda>y. attrs y name = attrs x name) xs then attrs x name
                    else Undefined)"

definition getFormat :: "nat \<Rightarrow> nat \<Rightarrow> editor \<Rightarrow> error + attributes" where
  "getFormat i n e =
     (if i + n \<le> length (doc e)
      then Inr (if n = 0 then common_attrs (take 1 (drop i (doc e)))
                else common_attrs (take n (drop i (doc e))))
      else Inl OutOfRange)"

text \<open>
  Modelled from the spec: \<open>setSelection(index, length)\<close> of the rendering surface,
  validated like every offset-addressed primitive.
\<close>

definition setSelection :: "nat \<Rightarrow> nat \<Rightarrow> editor \<Rightarrow> error + editor" where
  "setSelection i n e =
     (if i + n \<le> length (doc e) then Inr (e\<lparr>selection := Some \<lparr>index = i, len = n\<rparr>\<rparr>)
      else Inl OutOfRange)"

text \<open>
  Modelled from the spec: the lines touched by a range. A line starts at offset 0 or after
  a line feed, and ends with its line feed or with the document.
\<close>

fun line_start :: "node list \<Rightarrow> nat \<Rightarrow> nat" where
  "line_start ns 0 = 0"
| "line_start ns (Suc j) =
     (if j < length ns \<and> is_newline (ns ! j) then Suc j else line_start ns j)"

definition line_end :: "node list \<Rightarrow> nat \<Rightarrow> nat" where
  "line_end ns k =
     (let rest = drop k ns; m = length (takeWhile (\<lambda>x. \<not> is_newline x) rest)
      in if m < length rest then k + m + 1 else k + m)"

text \<open>
  Modelled from the spec: \<open>editor.format(attr, value)\<close> formats the live selection. A list
  type is a line-level attribute, applied to every line touched by the range; at a caret a
  character format only changes the input mode (the format of what is typed next), not the
  document; on a range it is \<open>formatRange\<close>. Without a live selection nothing is formatted.
\<close>

definition format_sel :: "string \<Rightarrow> jsval \<Rightarrow> editor \<Rightarrow> error + editor" where
  "format_sel name v e =
     (case selection e of
        None \<Rightarrow> Inr e
      | Some r \<Rightarrow>
          if name = ''list'' then
            (if index r + len r \<le> length (doc e) then
               (let a = line_start (doc e) (index r); b = line_end (doc e) (index r + len r)
                in Inr (e\<lparr>doc := format_nodes a (b - a) name v (doc e)\<rparr>))
             else Inl OutOfRange)
          else if len r = 0 then Inr (e\<lparr>cursor_format := set_attr name v (cursor_format e)\<rparr>)
          else formatText (index r) (len r) name v e)"

text \<open>
  Modelled from the spec: \<open>insertText(index, text, formats)\<close>. An insertion shifts every
  node at or after the index forward by the inserted length.
\<close>

definition insertText :: "nat \<Rightarrow> string \<Rightarrow> attributes \<Rightarrow> editor \<Rightarrow> error + editor" where
  "insertText i t a e =
     (if i \<le> length (doc e)
      then Inr (e\<lparr>doc := take i (doc e) @ map (\<lambda>c. \<lparr>item = TextChar c, attrs = a\<rparr>) t
                            @ drop i (doc e)\<rparr>)
      else Inl OutOfRange)"

text \<open>
  Modelled from the spec: \<open>insertEmbed(index, kind, src)\<close> for the kind \<open>image\<close>. The embed
  occupies exactly one offset unit and is a new blot, with an identity of its own.
\<close>

definition insertEmbed :: "nat \<Rightarrow> string \<Rightarrow> editor \<Rightarrow> error + editor" where
  "insertEmbed i src e =
     (if i \<le> length (doc e)
      then Inr (e\<lparr>doc := take i (doc e) @ [\<lparr>item = Embed (next_blot e) src, attrs = no_attrs\<rparr>]
                            @ drop i (doc e),
                   next_blot := Suc (next_blot e)\<rparr>)
      else Inl OutOfRange)"

text \<open>
  Modelled from the spec: \<open>deleteRange(index, length)\<close> (\<open>editor.deleteText\<close>). A deletion
  shifts every node after the deleted range backward by the deleted length.
\<close>

definition deleteText :: "nat \<Rightarrow> nat \<Rightarrow> editor \<Rightarrow> error + editor" where
  "deleteText i n e =
     (if i + n \<le> length (doc e) then Inr (e\<lparr>doc := take i (doc e) @ drop (i + n) (doc e)\<rparr>)
      else Inl OutOfRange)"

text \<open>
  Modelled from the spec: \<open>editor.getIndex(blot)\<close> resolves the current offset of a blot
  by its identity; a blot that is no longer in the document cannot be resolved (identity
  lost), which the drop handler tolerates.
\<close>

fun find_blot :: "nat \<Rightarrow> node list \<Rightarrow> nat option" where
  "find_blot b [] = None"
| "find_blot b (x # xs) =
     (if (case item x of Embed b' _ \<Rightarrow> b' = b | TextChar _ \<Rightarrow> False) then Some 0
      else map_option Suc (find_blot b xs))"

definition getIndex :: "nat \<Rightarrow> editor \<Rightarrow> error + nat" where
  "getIndex b e = (case find_blot b (doc e) of None \<Rightarrow> Inl DetachedBlot | Some i \<Rightarrow> Inr i)"

section \<open>The editing session\<close>

text \<open>
  The state of the \<open>App\<close> component that the handlers read and write: the editor behind
  \<open>quillRef\<close> (absent until the surface is mounted), the cached selection
  \<open>lastSelectionRef\<close>, the flag of the link dialog and the advisory notifications emitted so
  far. A handler returns the state it leaves behind and the exception it was aborted with,
  if any: the calls made before a failing primitive keep their effect.
\<close>

datatype level = Info | Warn | Failure | Success

record app =
  editorRef :: "editor option"
  lastSelectionRef :: "sel option"
  linkModalOpen :: bool
  toasts :: "(level \<times> string) list"

definition toast :: "level \<Rightarrow> string \<Rightarrow> app \<Rightarrow> app" where
  "toast l m s = s\<lparr>toasts := toasts s @ [(l, m)]\<rparr>"

text \<open>The calls a handler makes on the editor, in order, up to the first one that throws.\<close>

fun run_calls :: "editor \<Rightarrow> (editor \<Rightarrow> error + editor) list \<Rightarrow> editor \<times> error option" where
  "run_calls e [] = (e, None)"
| "run_calls e (f # fs) =
     (case f e of Inl err \<Rightarrow> (e, Some err) | Inr e' \<Rightarrow> run_calls e' fs)"

definition finish :: "app \<Rightarrow> (app \<Rightarrow> app) \<Rightarrow> editor \<times> error option \<Rightarrow> app \<times> error option" where
  "finish s k r =
     (case r of
        (e, None) \<Rightarrow> (k (s\<lparr>editorRef := Some e\<rparr>), None)
      | (e, Some err) \<Rightarrow> (s\<lparr>editorRef := Some e\<rparr>, Some err))"

definition toggle_formats :: "string list" where
  "toggle_formats = [''bold'', ''italic'', ''underline'', ''strike'']"

text \<open>\<open>handleFormat\<close> of \<open>App\<close>, the handler behind the toolbar buttons.\<close>

definition handleFormat :: "string \<Rightarrow> jsval \<Rightarrow> app \<Rightarrow> app \<times> error option" where
  "handleFormat format value s =
     (case editorRef s of
        None \<Rightarrow> (s, None)
      | Some editor \<Rightarrow>
          let range' = getSelection editor in
          if format = ''list'' then
            (case range' of
               None \<Rightarrow> (toast Info ''Select the text you want to turn into a list.'' s, None)
             | Some r \<Rightarrow>
                 if len r = 0
                 then (toast Info ''Select the text you want to turn into a list.'' s, None)
                 else finish s id (run_calls editor [format_sel ''list'' value]))
          else if format = ''size'' then
            (case range' of
               None \<Rightarrow> (toast Info ''Select text to apply the heading size.'' s, None)
             | Some r \<Rightarrow>
                 if len r = 0
                 then (toast Info ''Select text to apply the heading size.'' s, None)
                 else finish s id (run_calls editor
                   [if value = VBool False then formatText (index r) (len r) ''size'' (VBool False)
                    else formatText (index r) (len r) ''size'' value,
                    setSelection (index r + len r) 0,
                    format_sel ''size'' (VBool False)]))
          else if format \<in> set toggle_formats then
            (case range' of
               None \<Rightarrow> (toast Info ''Select text to apply formatting.'' s, None)
             | Some r \<Rightarrow>
                 if len r = 0
                 then (toast Info ''Select text to apply formatting.'' s, None)
                 else
                   (case getFormat (index r) (len r) editor of
                      Inl err \<Rightarrow> (s, Some err)
                    | Inr currentFormats \<Rightarrow>
                        let currentlyEnabled = truthy (currentFormats format) in
                        finish s id (run_calls editor
                          [formatText (index r) (len r) format (VBool (\<not> currentlyEnabled)),
                           setSelection (index r + len r) 0,
                           format_sel format (VBool False)])))
          else
            (case range' of
               None \<Rightarrow> (s, None)
             | Some r \<Rightarrow>
                 finish s id (run_calls editor
                   [format_sel format (if value = Undefined then VBool True else value)])))"

text \<open>
  The selection tracker: the handler of the surface's selection-change notification, and
  the snapshot taken on content change, click and key release. Both overwrite the cached
  selection with the live one, also when the live one is null.
\<close>

definition handleSelectionChange :: "sel option \<Rightarrow> app \<Rightarrow> app" where
  "handleSelectionChange range' s =
     (case range' of
        Some r \<Rightarrow> s\<lparr>lastSelectionRef := Some \<lparr>index = index r, len = len r\<rparr>\<rparr>
      | None \<Rightarrow> s\<lparr>lastSelectionRef := None\<rparr>)"

definition snapshotSelection :: "app \<Rightarrow> app" where
  "snapshotSelection s =
     (case editorRef s of
        None \<Rightarrow> s
      | Some editor \<Rightarrow>
          (case getSelection editor of
             Some r \<Rightarrow> s\<lparr>lastSelectionRef := Some \<lparr>index = index r, len = len r\<rparr>\<rparr>
           | None \<Rightarrow> s\<lparr>lastSelectionRef := None\<rparr>))"

text \<open>
  \<open>openLinkModal\<close>: the live selection, when there is one, is cached at the moment the
  dialog is opened; a null live selection leaves the cache as it is.
\<close>

definition openLinkModal :: "app \<Rightarrow> app" where
  "openLinkModal s =
     (let s1 = (case editorRef s of
                  None \<Rightarrow> s
                | Some editor \<Rightarrow>
                    (case getSelection editor of
                       Some r \<Rightarrow> s\<lparr>lastSelectionRef := Some \<lparr>index = index r, len = len r\<rparr>\<rparr>
                     | None \<Rightarrow> s))
      in s1\<lparr>linkModalOpen := True\<rparr>)"

text \<open>The scheme check shared by the dialog and the insertion handler.\<close>

definition with_scheme :: "string \<Rightarrow> string" where
  "with_scheme url =
     (if \<not> startsWith url ''http://'' \<and> \<not> startsWith url ''https://'' then ''https://'' @ url
      else url)"

text \<open>
  \<open>handleInsertLink\<close>: the live selection is preferred, then the cached one, then the caret
  at the end of the document; a range gets the link format, a caret gets the URL inserted
  as linked text.
\<close>

definition handleInsertLink :: "string \<Rightarrow> app \<Rightarrow> app \<times> error option" where
  "handleInsertLink url s =
     (case editorRef s of
        None \<Rightarrow> (s, None)
      | Some editor \<Rightarrow>
          let finalUrl = with_scheme url;
              saved = lastSelectionRef s;
              range' = getSelection editor;
              useIndex = (case range' of Some r \<Rightarrow> index r
                          | None \<Rightarrow> (case saved of Some r \<Rightarrow> index r
                                      | None \<Rightarrow> getLength editor - 1));
              useLength = (case range' of Some r \<Rightarrow> len r
                           | None \<Rightarrow> (case saved of Some r \<Rightarrow> len r | None \<Rightarrow> 0))
          in if useLength > 0 then
               finish s (\<lambda>s'. s'\<lparr>lastSelectionRef := None\<rparr>)
                 (run_calls editor
                    [formatText useIndex useLength ''link'' (VStr finalUrl),
                     setSelection (useIndex + useLength) 0,
                     \<lambda>e. Inr (focus e)])
             else
               finish s (\<lambda>s'. s'\<lparr>lastSelectionRef := None\<rparr>)
                 (run_calls editor
                    [insertText useIndex finalUrl (no_attrs(''link'' := VStr finalUrl)),
                     setSelection (useIndex + length finalUrl) 0,
                     \<lambda>e. Inr (focus e)]))"

text \<open>
  \<open>handleSubmit\<close> of the link dialog: an empty URL is refused with a warning; otherwise the
  trimmed URL, with a scheme, goes to \<open>handleInsertLink\<close> and the dialog is closed.
\<close>

definition handleSubmit :: "string \<Rightarrow> app \<Rightarrow> app \<times> error option" where
  "handleSubmit url s =
     (if trim url = [] then (toast Warn ''Please enter a link URL'' s, None)
      else
        (case handleInsertLink (with_scheme (trim url)) s of
           (s', Some err) \<Rightarrow> (s', Some err)
         | (s', None) \<Rightarrow> (s'\<lparr>linkModalOpen := False\<rparr>, None)))"

text \<open>
  Modelled from the spec: the selection-change notification of the rendering surface (the
  editor component is a dependency and not among the sources), for what the user and the
  browser do to the surface between two handlers. When the user selects a range, the
  surface has that live selection and notifies the tracker of it. When the focus moves away
  from the surface, to a dialog for instance, the live selection becomes null and the
  surface notifies the tracker of the null selection. In both cases the handler that the
  tracker has registered for the notification, \<open>handleSelectionChange\<close>, runs.
\<close>

definition user_select :: "nat \<Rightarrow> nat \<Rightarrow> app \<Rightarrow> app" where
  "user_select i n s =
     handleSelectionChange (Some \<lparr>index = i, len = n\<rparr>)
       (s\<lparr>editorRef := map_option (\<lambda>e. e\<lparr>selection := Some \<lparr>index = i, len = n\<rparr>\<rparr>) (editorRef s)\<rparr>)"

definition focus_lost :: "app \<Rightarrow> app" where
  "focus_lost s =
     handleSelectionChange None
       (s\<lparr>editorRef := map_option (\<lambda>e. e\<lparr>selection := None, focused := False\<rparr>) (editorRef s)\<rparr>)"

definition toggled :: "string \<Rightarrow> nat \<Rightarrow> nat \<Rightarrow> node list \<Rightarrow> node list" where
  "toggled fmt i n ns =
     format_nodes i n fmt (VBool (\<not> truthy (common_attrs (take n (drop i ns)) fmt))) ns"

definition format_states :: "string \<Rightarrow> app \<Rightarrow> bool list option" where
  "format_states fmt s = map_option (\<lambda>e. map (\<lambda>x. truthy (attrs x fmt)) (doc e)) (editorRef s)"

definition mixed_app :: app where
  "mixed_app =
     \<lparr>editorRef = Some \<lparr>doc = [\<lparr>item = TextChar CHR ''a'', attrs = no_attrs(''bold'' := VBool True)\<rparr>,
                               \<lparr>item = TextChar CHR ''b'', attrs = no_attrs\<rparr>],
                        selection = Some \<lparr>index = 0, len = 2\<rparr>,
                        cursor_format = no_attrs, focused = True, next_blot = 0\<rparr>,
      lastSelectionRef = Some \<lparr>index = 0, len = 2\<rparr>,
      linkModalOpen = False,
      toasts = []\<rparr>"

definition bold_app :: app where
  "bold_app =
     \<lparr>editorRef = Some \<lparr>doc = [\<lparr>item = TextChar CHR ''a'', attrs = no_attrs(''bold'' := VBool True)\<rparr>,
                               \<lparr>item = TextChar CHR ''b'', attrs = no_attrs(''bold'' := VBool True)\<rparr>],
                        selection = Some \<lparr>index = 0, len = 2\<rparr>,
                        cursor_format = no_attrs, focused = True, next_blot = 0\<rparr>,
      lastSelectionRef = Some \<lparr>index = 0, len = 2\<rparr>,
      linkModalOpen = False,
      toasts = []\<rparr>"

definition document :: "app \<Rightarrow> node list" where
  "document s = (case editorRef s of None \<Rightarrow> [] | Some e \<Rightarrow> doc e)"

definition has_scheme :: "string \<Rightarrow> bool" where
  "has_scheme u = (startsWith u ''http://'' \<or> startsWith u ''https://'')"

definition link_app :: app where
  "link_app =
     \<lparr>editorRef = Some \<lparr>doc = map (\<lambda>c. \<lparr>item = TextChar c, attrs = no_attrs\<rparr>)
                                     (''abcdef'' @ [CHR 0x0A]),
                        selection = Some \<lparr>index = 2, len = 3\<rparr>,
                        cursor_format = no_attrs, focused = True, next_blot = 0\<rparr>,
      lastSelectionRef = None,
      linkModalOpen = False,
      toasts = []\<rparr>"

definition attr_ok :: "string \<Rightarrow> jsval \<Rightarrow> node list \<Rightarrow> node list \<Rightarrow> bool" where
  "attr_ok name v ns ns' = (\<forall>x\<in>set ns'. x \<in> set ns \<or> attrs x name = v)"

section \<open>Drag-move of an embedded image\<close>

text \<open>
  The state of the \<open>ImageUploader\<close> component that the drop handler works on: the editor
  behind \<open>quillRef\<close> and \<open>draggingState\<close>, which \<open>dragstart\<close> fills with the dragged image
  element, its blot and its source, and \<open>dragend\<close> clears. Elements and blots are
  represented by the identity of the blot.
\<close>

record dragging =
  draggedImgEl :: "nat option"
  draggedBlot :: "nat option"
  draggedSrc :: "string option"

record uploader =
  quillRef :: "editor option"
  draggingState :: dragging

text \<open>
  The \<open>dragstart\<close> listener of an image element: \<open>Quill.find(imgEl)\<close> gives the blot of the
  element when it is in the document, and null otherwise.
\<close>

definition dragstart :: "nat \<Rightarrow> string \<Rightarrow> uploader \<Rightarrow> uploader" where
  "dragstart imgEl src u =
     u\<lparr>draggingState :=
          \<lparr>draggedImgEl = Some imgEl,
           draggedBlot = (case quillRef u of
                            None \<Rightarrow> None
                          | Some e \<Rightarrow> (case find_blot imgEl (doc e) of
                                         None \<Rightarrow> None | Some _ \<Rightarrow> Some imgEl)),
           draggedSrc = Some src\<rparr>\<rparr>"

definition dragend :: "uploader \<Rightarrow> uploader" where
  "dragend u = u\<lparr>draggingState := \<lparr>draggedImgEl = None, draggedBlot = None, draggedSrc = None\<rparr>\<rparr>"

text \<open>
  What the browser reports for the drop point when there is no live selection: no caret
  range at all, or a caret range whose node resolves to a blot (given by its offset) or to
  none.
\<close>

datatype pointer = NoCaretRange | CaretRange "nat option"

text \<open>
  The destination offset of a drop: the live selection if there is one, else the offset of
  the blot under the pointer, else the end of the document.
\<close>

definition drop_index :: "sel option \<Rightarrow> pointer \<Rightarrow> editor \<Rightarrow> nat" where
  "drop_index live p e =
     (case live of
        Some r \<Rightarrow> index r
      | None \<Rightarrow>
          (case p of
             CaretRange (Some i) \<Rightarrow> i
           | CaretRange None \<Rightarrow> getLength e
           | NoCaretRange \<Rightarrow> getLength e))"

text \<open>
  The \<open>drop\<close> listener installed by \<open>insertImageIntoEditor\<close>. The source read from the
  data transfer is inserted as a new embed at the destination; then, when the dragged blot
  is known, its current offset is resolved and one unit is deleted there. A failure of the
  removal is caught and ignored; a failure of the insertion is not caught. The variable
  \<open>adjustedDropIndex\<close> of the source is computed and never used, and has no counterpart
  here.
\<close>

definition drop_handler :: "string option \<Rightarrow> pointer \<Rightarrow> uploader \<Rightarrow> uploader \<times> error option" where
  "drop_handler dataTransfer p u =
     (case quillRef u of
        None \<Rightarrow> (u, None)
      | Some editor \<Rightarrow>
          let src = (case dataTransfer of
                       None \<Rightarrow> None
                     | Some d \<Rightarrow> if d = [] then None else Some d);
              (e1, live) = getSelection_focus editor;
              dropIndex = drop_index live p e1
          in case src of
               None \<Rightarrow> (u\<lparr>quillRef := Some e1\<rparr>, None)
             | Some url \<Rightarrow>
                 (case insertEmbed dropIndex url e1 of
                    Inl err \<Rightarrow> (u\<lparr>quillRef := Some e1\<rparr>, Some err)
                  | Inr e2 \<Rightarrow>
                      (case draggedBlot (draggingState u) of
                         None \<Rightarrow> (u\<lparr>quillRef := Some e2\<rparr>, None)
                       | Some blot \<Rightarrow>
                           (case getIndex blot e2 of
                              Inl err \<Rightarrow> (u\<lparr>quillRef := Some e2\<rparr>, None)
                            | Inr originalIndex \<Rightarrow>
                                (case deleteText originalIndex 1 e2 of
                                   Inl err \<Rightarrow> (u\<lparr>quillRef := Some e2\<rparr>, None)
                                 | Inr e3 \<Rightarrow>
                                     (u\<lparr>quillRef := Some e3,
                                        draggingState := \<lparr>draggedImgEl = None, draggedBlot = None,
                                                           draggedSrc = None\<rparr>\<rparr>, None))))))"

definition has_blot :: "nat \<Rightarrow> node list \<Rightarrow> bool" where
  "has_blot b ns = (find_blot b ns \<noteq> None)"

definition image_node :: "nat \<Rightarrow> string \<Rightarrow> node" where
  "image_node b src = \<lparr>item = Embed b src, attrs = no_attrs\<rparr>"

definition text_nodes :: "string \<Rightarrow> node list" where
  "text_nodes t = map (\<lambda>c. \<lparr>item = TextChar c, attrs = no_attrs\<rparr>) t"

definition drag_editor :: editor where
  "drag_editor =
     \<lparr>doc = text_nodes ''ab'' @ [image_node 0 ''data:x''] @ text_nodes ''cd'',
      selection = None, cursor_format = no_attrs, focused = False, next_blot = 1\<rparr>"

definition drag_uploader :: uploader where
  "drag_uploader =
     \<lparr>quillRef = Some drag_editor,
      draggingState = \<lparr>draggedImgEl = Some 0, draggedBlot = Some 0, draggedSrc = Some ''data:x''\<rparr>\<rparr>"

section \<open>Draft persistence\<close>

text \<open>
  The draft is the object \<open>{ title, content, tags, images }\<close> that \<open>App\<close> builds on every
  render. \<open>JSON.stringify\<close> is injective on drafts, so the stored string is represented by
  the draft it encodes.
\<close>

record image_record =
  img_id :: nat
  img_name :: string
  img_url :: string
  img_width :: string
  img_height :: string

record draft =
  title :: string
  content :: string
  tags :: "string list"
  images :: "image_record list"

text \<open>
  The guard of \<open>useAutoSaveDraft\<close>: a string counts when it is non-empty and non-empty
  after trimming, a list when it has an element.
\<close>

definition hasContent :: "draft \<Rightarrow> bool" where
  "hasContent d =
     ((title d \<noteq> [] \<and> trim (title d) \<noteq> [])
      \<or> (content d \<noteq> [] \<and> trim (content d) \<noteq> [])
      \<or> length (tags d) > 0
      \<or> length (images d) > 0)"

text \<open>
  The persistence controller: the clock, the pending timer of \<open>setTimeout\<close> (its due time
  and the draft captured by its callback), the draft slot of the store, the calls of
  \<open>localStorage.setItem\<close> on that slot (time and payload, whether the store accepted them or
  not) and the notifications. The store is an external collaborator: \<open>accepts\<close> says which
  values it takes; on any other value \<open>setItem\<close> throws (quota).
\<close>

record autosave =
  now :: nat
  timer :: "(nat \<times> draft) option"
  slot :: "draft option"
  writes :: "(nat \<times> draft) list"
  notices :: "(level \<times> string) list"
  accepts :: "draft \<Rightarrow> bool"

text \<open>
  Modelled from the spec: \<open>set(key, string)\<close> of the persistence store, which fails with
  \<open>StoreError\<close> on quota or exceptions and then leaves the slot as it was.
\<close>

definition setItem :: "draft \<Rightarrow> autosave \<Rightarrow> error + draft option" where
  "setItem d st = (if accepts st d then Inr (Some d) else Inl StoreError)"

text \<open>The callback of the timer: the write, with its two notifications.\<close>

definition fire :: "nat \<Rightarrow> draft \<Rightarrow> autosave \<Rightarrow> autosave" where
  "fire t d st =
     (case setItem d st of
        Inr sl \<Rightarrow> st\<lparr>slot := sl, writes := writes st @ [(t, d)],
                      notices := notices st @ [(Info, ''Draft auto-saved'')]\<rparr>
      | Inl err \<Rightarrow> st\<lparr>writes := writes st @ [(t, d)],
                       notices := notices st @ [(Failure, ''Failed to save draft'')]\<rparr>)"

text \<open>
  Time passes up to \<open>t\<close>: a pending timer that is due by then runs its callback at its due
  time.
\<close>

definition advance :: "nat \<Rightarrow> autosave \<Rightarrow> autosave" where
  "advance t st =
     (case timer st of
        None \<Rightarrow> st\<lparr>now := max (now st) t\<rparr>
      | Some (due, d) \<Rightarrow>
          if due \<le> t then (fire due d st)\<lparr>timer := None, now := max (now st) t\<rparr>
          else st\<lparr>now := max (now st) t\<rparr>)"

text \<open>
  The effect of \<open>useAutoSaveDraft(draft, delay)\<close>, run after a render: the cleanup of the
  previous run clears its timer (when the previous run returned early there is no timer to
  clear); the new run returns early on a draft without content, and otherwise starts a
  timer that will write this draft after the delay.
\<close>

definition clearTimeout :: "autosave \<Rightarrow> autosave" where
  "clearTimeout st = st\<lparr>timer := None\<rparr>"

definition useAutoSaveDraft :: "draft \<Rightarrow> nat \<Rightarrow> autosave \<Rightarrow> autosave" where
  "useAutoSaveDraft d delay st =
     (let st1 = clearTimeout st
      in if \<not> hasContent d then st1
         else st1\<lparr>timer := Some (now st1 + delay, d)\<rparr>)"

text \<open>
  The step relation of the hook: a render with a new draft object at the current time, or
  the passing of time.
\<close>

datatype event = Render draft | Tick nat

fun step :: "nat \<Rightarrow> autosave \<Rightarrow> event \<Rightarrow> autosave" where
  "step delay st (Render d) = useAutoSaveDraft d delay st"
| "step delay st (Tick t) = advance t st"

definition steps :: "nat \<Rightarrow> event list \<Rightarrow> autosave \<Rightarrow> autosave" where
  "steps delay evs st = foldl (step delay) st evs"

text \<open>
  The scenario of renders at times 0 and 10, observed at time \<open>T\<close>, with the given delay.
\<close>

definition scenario :: "nat \<Rightarrow> nat \<Rightarrow> draft \<Rightarrow> draft \<Rightarrow> autosave \<Rightarrow> autosave" where
  "scenario delay T d0 d1 st =
     steps delay [Tick 0, Render d0, Tick 10, Render d1, Tick T] st"

text \<open>
  The effect of \<open>App\<close> that depends on \<open>images\<close>: the draft of the current render is written
  at once, and a failure of the store is swallowed.
\<close>

definition persist_now :: "draft \<Rightarrow> autosave \<Rightarrow> autosave" where
  "persist_now d st =
     (case setItem d st of
        Inr sl \<Rightarrow> st\<lparr>slot := sl, writes := writes st @ [(now st, d)]\<rparr>
      | Inl err \<Rightarrow> st\<lparr>writes := writes st @ [(now st, d)]\<rparr>)"

text \<open>
  The draft state of \<open>App\<close> with its persistence. A state setter that is given the current
  string does not cause a render; a new array always does. A render runs the effect of
  \<open>useAutoSaveDraft\<close> with the delay 30000 and then, when \<open>images\<close> is a new array, the
  effect that writes at once.
\<close>

record session =
  current :: draft
  persistence :: autosave

definition setTitle :: "string \<Rightarrow> session \<Rightarrow> session" where
  "setTitle t s =
     (if t = title (current s) then s
      else let d = (current s)\<lparr>title := t\<rparr>
           in \<lparr>current = d, persistence = useAutoSaveDraft d 30000 (persistence s)\<rparr>)"

definition setContent :: "string \<Rightarrow> session \<Rightarrow> session" where
  "setContent c s =
     (if c = content (current s) then s
      else let d = (current s)\<lparr>content := c\<rparr>
           in \<lparr>current = d, persistence = useAutoSaveDraft d 30000 (persistence s)\<rparr>)"

definition setTags :: "string list \<Rightarrow> session \<Rightarrow> session" where
  "setTags ts s =
     (let d = (current s)\<lparr>tags := ts\<rparr>
      in \<lparr>current = d, persistence = useAutoSaveDraft d 30000 (persistence s)\<rparr>)"

definition setImages :: "image_record list \<Rightarrow> session \<Rightarrow> session" where
  "setImages imgs s =
     (let d = (current s)\<lparr>images := imgs\<rparr>
      in \<lparr>current = d, persistence = persist_now d (useAutoSaveDraft d 30000 (persistence s))\<rparr>)"

definition elapse :: "nat \<Rightarrow> session \<Rightarrow> session" where
  "elapse t s = s\<lparr>persistence := advance t (persistence s)\<rparr>"

definition empty_draft :: draft where
  "empty_draft = \<lparr>title = [], content = [], tags = [], images = []\<rparr>"


definition titled :: "string \<Rightarrow> draft" where
  "titled t = \<lparr>title = t, content = [], tags = [], images = []\<rparr>"

definition fresh :: autosave where
  "fresh = \<lparr>now = 0, timer = None, slot = None, writes = [], notices = [],
            accepts = (\<lambda>_. True)\<rparr>"

definition photo :: image_record where
  "photo = \<lparr>img_id = 1, img_name = ''a.png'', img_url = ''data:x'', img_width = ''120px'',
             img_height = ''80px''\<rparr>"


definition typing_session :: session where
  "typing_session = elapse 10 (setTitle ''a'' \<lparr>current = empty_draft, persistence = fresh\<rparr>)"

definition with_photo :: draft where
  "with_photo = \<lparr>title = ''a'', content = [], tags = [], images = [photo]\<rparr>"

section \<open>Content normalisation\<close>

text \<open>
  \<open>cleanHtml\<close> applies five regular-expression replacements between two trims. Each
  regular expression is translated into a matcher that, given the text from some position
  on, returns the text after the match at that position, or \<open>None\<close>. The expressions have
  no ambiguity that backtracking could resolve differently: every repetition is followed
  by a character that the repeated part cannot start with, so the greedy match is the only
  candidate at a position. All of them carry the flag \<open>i\<close>; the letters are matched in
  either case.
\<close>

text \<open>
  A sequence of character classes, such as the literal \<open><p>\<close> under the flag \<open>i\<close>: each
  class takes one character.
\<close>

definition ch :: "char \<Rightarrow> char \<Rightarrow> bool" where
  "ch x c = (c = x)"

definition either :: "char \<Rightarrow> char \<Rightarrow> char \<Rightarrow> bool" where
  "either x y c = (c = x \<or> c = y)"

fun lit :: "(char \<Rightarrow> bool) list \<Rightarrow> string \<Rightarrow> string option" where
  "lit [] s = Some s"
| "lit (p # ps) [] = None"
| "lit (p # ps) (c # cs) = (if p c then lit ps cs else None)"

text \<open>\<open><p>\<close>\<close>

definition open_p :: "string \<Rightarrow> string option" where
  "open_p = lit [ch CHR ''<'', either CHR ''p'' CHR ''P'', ch CHR ''>'']"

text \<open>\<open><\/p>\<close>\<close>

definition close_p :: "string \<Rightarrow> string option" where
  "close_p = lit [ch CHR ''<'', ch CHR ''/'', either CHR ''p'' CHR ''P'', ch CHR ''>'']"

text \<open>\<open>&nbsp;\<close>\<close>

definition nbsp :: "string \<Rightarrow> string option" where
  "nbsp = lit [ch CHR ''&'', either CHR ''n'' CHR ''N'', either CHR ''b'' CHR ''B'',
               either CHR ''s'' CHR ''S'', either CHR ''p'' CHR ''P'', ch CHR '';'']"

text \<open>\<open>\/?\<close>: a slash is taken when there is one.\<close>

definition opt_slash :: "string \<Rightarrow> string" where
  "opt_slash s = (case s of [] \<Rightarrow> [] | c # cs \<Rightarrow> if c = CHR ''/'' then cs else c # cs)"

text \<open>\<open><br\s*\/?>\<close>\<close>

definition br :: "string \<Rightarrow> string option" where
  "br s =
     (case lit [ch CHR ''<'', either CHR ''b'' CHR ''B'', either CHR ''r'' CHR ''R''] s of
        None \<Rightarrow> None
      | Some r \<Rightarrow> lit [ch CHR ''>''] (opt_slash (dropWhile is_space r)))"

text \<open>\<open>(\s|&nbsp;|<br\s*\/?>)*\<close>: the text after the longest run of these three.\<close>

function fill :: "string \<Rightarrow> string" where
  "fill [] = []"
| "fill (c # cs) =
     (if is_space c then fill cs
      else case nbsp (c # cs) of
             Some r \<Rightarrow> fill r
           | None \<Rightarrow> (case br (c # cs) of Some r \<Rightarrow> fill r | None \<Rightarrow> c # cs))"
  by pat_completeness auto
termination
proof (relation "measure length")
  show "wf (measure length)" by simp
next
  fix c :: char and cs
  show "(cs, c # cs) \<in> measure length" by simp
next
  have l: "lit ps s = Some r \<Longrightarrow> length r + length ps = length s" for ps s r
    by (induction ps s rule: lit.induct) (simp_all split: if_splits)
  {
    fix c :: char and cs r
    assume "nbsp (c # cs) = Some r"
    then have "length r < length (c # cs)" unfolding nbsp_def by (drule_tac l) simp
    then show "(r, c # cs) \<in> measure length" by simp
  }
  {
    fix c :: char and cs r
    assume "br (c # cs) = Some r"
    then obtain r1 where r1: "lit [ch CHR ''<'', either CHR ''b'' CHR ''B'', either CHR ''r'' CHR ''R''] (c # cs) = Some r1"
      and r: "lit [ch CHR ''>''] (opt_slash (dropWhile is_space r1)) = Some r"
      by (simp add: br_def split: option.splits)
    have "length (opt_slash (dropWhile is_space r1)) \<le> length (dropWhile is_space r1)"
      by (simp add: opt_slash_def split: list.splits)
    also have "\<dots> \<le> length r1" by (rule length_dropWhile_le)
    finally have "length r < length r1" using l [OF r] by simp
    with l [OF r1] have "length r < length (c # cs)" by simp
    then show "(r, c # cs) \<in> measure length" by simp
  }
qed

text \<open>\<open><p>(\s|&nbsp;|<br\s*\/?>)*<\/p>\<close>\<close>

definition empty_p :: "string \<Rightarrow> string option" where
  "empty_p s = (case open_p s of None \<Rightarrow> None | Some r \<Rightarrow> close_p (fill r))"

text \<open>\<open><p>\s*<\/p>\s*\<close>\<close>

definition unit_p :: "string \<Rightarrow> string option" where
  "unit_p s =
     (case open_p s of
        None \<Rightarrow> None
      | Some r \<Rightarrow>
          (case close_p (dropWhile is_space r) of
             None \<Rightarrow> None
           | Some r1 \<Rightarrow> Some (dropWhile is_space r1)))"

text \<open>\<open><br\s*\/?>\s*\<close>\<close>

definition unit_br :: "string \<Rightarrow> string option" where
  "unit_br s = (case br s of None \<Rightarrow> None | Some r \<Rightarrow> Some (dropWhile is_space r))"

text \<open>
  A greedy repetition of a matcher: the number of iterations and the text after the last
  one. As in the regular-expression semantics, an iteration that consumes nothing ends the
  repetition; none of the matchers above can match the empty text.
\<close>

function reps :: "(string \<Rightarrow> string option) \<Rightarrow> string \<Rightarrow> nat \<times> string" where
  "reps m s =
     (case m s of
        None \<Rightarrow> (0, s)
      | Some r \<Rightarrow>
          if length r < length s then (case reps m r of (n, t) \<Rightarrow> (Suc n, t)) else (0, s))"
  by pat_completeness auto
termination
  by (relation "measure (\<lambda>(m, s). length s)") simp_all

text \<open>\<open>(...){2,}\<close> and \<open>(...)+\<close>\<close>

definition two_or_more :: "(string \<Rightarrow> string option) \<Rightarrow> string \<Rightarrow> string option" where
  "two_or_more m s = (case reps m s of (n, r) \<Rightarrow> if 2 \<le> n then Some r else None)"

definition one_or_more :: "(string \<Rightarrow> string option) \<Rightarrow> string \<Rightarrow> string option" where
  "one_or_more m s = (case reps m s of (n, r) \<Rightarrow> if 1 \<le> n then Some r else None)"

text \<open>
  \<open>String.prototype.replace\<close> with a global regular expression and a constant
  replacement: the text is scanned from the left; at a match the replacement is emitted
  and the scan continues after the match, otherwise the character is kept.
\<close>

function replace_all :: "(string \<Rightarrow> string option) \<Rightarrow> string \<Rightarrow> string \<Rightarrow> string" where
  "replace_all m rep [] = []"
| "replace_all m rep (c # cs) =
     (case m (c # cs) of
        None \<Rightarrow> c # replace_all m rep cs
      | Some r \<Rightarrow>
          if length r < length (c # cs) then rep @ replace_all m rep r
          else c # replace_all m rep cs)"
  by pat_completeness auto
termination
  by (relation "measure (\<lambda>(m, rep, s). length s)") simp_all

text \<open>
  \<open>replace(/^(<p>\s*<\/p>\s*)+/i, "")\<close>: without the flag \<open>g\<close>, and anchored at the start.
\<close>

definition strip_leading :: "string \<Rightarrow> string" where
  "strip_leading s = (case one_or_more unit_p s of None \<Rightarrow> s | Some r \<Rightarrow> r)"

text \<open>
  \<open>replace(/(<p>\s*<\/p>\s*)+$/i, "")\<close>: the leftmost position from which the repetition
  reaches the end of the text; what precedes it is kept.
\<close>

fun strip_trailing :: "string \<Rightarrow> string" where
  "strip_trailing [] = []"
| "strip_trailing (c # cs) =
     (if one_or_more unit_p (c # cs) = Some [] then [] else c # strip_trailing cs)"

text \<open>\<open>cleanHtml\<close> of \<open>App.jsx\<close>.\<close>

definition cleanHtml :: "string \<Rightarrow> string" where
  "cleanHtml rawHtml =
     (if rawHtml = [] then []
      else
        let html = trim rawHtml;
            html = replace_all empty_p ''<p></p>'' html;
            html = replace_all (two_or_more unit_p) ''<p></p>'' html;
            html = strip_leading html;
            html = strip_trailing html;
            html = replace_all (two_or_more unit_br) ''<br/>'' html
        in trim html)"

text \<open>
  What the three global replacements have in common: a match starts with \<open><\<close> and is not
  empty.
\<close>

definition tagm :: "(string \<Rightarrow> string option) \<Rightarrow> bool" where
  "tagm m = (\<forall>s r. m s = Some r \<longrightarrow> length r < length s \<and> (\<exists>t. s = CHR ''<'' # t))"

definition shrinks :: "(string \<Rightarrow> string option) \<Rightarrow> bool" where
  "shrinks m = (\<forall>s r. m s = Some r \<longrightarrow> length r < length s)"

text \<open>The first two replacements match at an opening paragraph tag only.\<close>

definition para_matcher :: "(string \<Rightarrow> string option) \<Rightarrow> bool" where
  "para_matcher m = (tagm m \<and> (\<forall>s r. m s = Some r \<longrightarrow> open_p s \<noteq> None))"

text \<open>
  A property of the text from every position on, and the properties that make a text a
  fixed point of the five replacements: every match of the first pattern is the canonical
  empty paragraph already, and the other four patterns match nowhere.
\<close>

definition everywhere :: "(string \<Rightarrow> bool) \<Rightarrow> string \<Rightarrow> bool" where
  "everywhere P s = (\<forall>u t. s = u @ t \<longrightarrow> P t)"

definition canon :: "string \<Rightarrow> bool" where
  "canon t = (\<forall>z. empty_p t = Some z \<longrightarrow> t = ''<p></p>'' @ z)"

definition no_run_p :: "string \<Rightarrow> bool" where
  "no_run_p t = (two_or_more unit_p t = None)"

definition no_tail_p :: "string \<Rightarrow> bool" where
  "no_tail_p t = (one_or_more unit_p t \<noteq> Some [])"

definition no_run_br :: "string \<Rightarrow> bool" where
  "no_run_br t = (two_or_more unit_br t = None)"

definition clean :: "string \<Rightarrow> bool" where
  "clean s =
     (everywhere canon s \<and> everywhere no_run_p s \<and> unit_p s = None
      \<and> everywhere no_tail_p s \<and> dropWhile is_space s = s)"

definition normal :: "string \<Rightarrow> bool" where
  "normal s = (clean s \<and> everywhere no_run_br s \<and> trim s = s)"

lemma is_space_digit: "is_digit c \<Longrightarrow> \<not> is_space c"
  by (auto simp: is_digit_def is_space_def)

lemma trim_no_space:
  assumes "s \<noteq> []" "\<not> is_space (hd s)" "\<not> is_space (last s)"
  shows "trim s = s"
proof -
  from assms obtain c cs where s: "s = c # cs" by (cases s) auto
  with assms have 1: "dropWhile is_space s = s" by simp
  from assms have "rev s \<noteq> []" "\<not> is_space (hd (rev s))" by (simp_all add: hd_rev)
  then have "dropWhile is_space (rev s) = rev s" by (cases "rev s") auto
  with 1 show ?thesis by (simp add: trim_def)
qed

lemma all_digits_trim: "all_digits v \<Longrightarrow> trim v = v"
  by (rule trim_no_space)
     (auto simp: all_digits_def list_all_iff is_space_digit)

lemma endsWith_single: "endsWith v [c] \<Longrightarrow> c \<in> set v"
proof -
  assume "endsWith v [c]"
  then have "drop (length v - 1) v = [c]" by (simp add: endsWith_def)
  then have "take (length v - 1) v @ [c] = v" by (metis append_take_drop_id)
  then have "set v = set (take (length v - 1) v @ [c])" by simp
  then show ?thesis by simp
qed

lemma percent_not_digit: "\<not> is_digit CHR ''%''"
  by (simp add: is_digit_def)

lemma all_digits_not_percent: "all_digits v \<Longrightarrow> \<not> endsWith v ''%''"
proof
  assume a: "all_digits v" and e: "endsWith v ''%''"
  from e have "CHR ''%'' \<in> set v" by (rule endsWith_single)
  with a have "is_digit CHR ''%''" by (simp add: all_digits_def list_all_iff)
  with percent_not_digit show False by simp
qed

text \<open>
  Claim C9. A bare integer string gets the suffix \<open>px\<close>; a trimmed string that is not a
  bare integer (a percentage, \<open>auto\<close>, a value with an explicit unit) is returned unchanged.
  In particular \<open>300\<close> gives \<open>300px\<close>, \<open>50%\<close> gives \<open>50%\<close> and \<open>auto\<close> gives \<open>auto\<close>.
\<close>

theorem normalizeSizeValue_spec:
  "normalizeSizeValue ''300'' = ''300px''
   \<and> normalizeSizeValue ''50%'' = ''50%''
   \<and> normalizeSizeValue ''auto'' = ''auto''
   \<and> (all_digits v \<longrightarrow> normalizeSizeValue v = v @ ''px'')
   \<and> (trim v = v \<and> \<not> all_digits v \<longrightarrow> normalizeSizeValue v = v)"
proof -
  have 1: "normalizeSizeValue v = v @ ''px''" if "all_digits v"
    using that all_digits_trim [OF that] all_digits_not_percent [OF that]
    by (auto simp add: normalizeSizeValue_def Let_def all_digits_def)
  have 2: "normalizeSizeValue v = v" if "trim v = v" "\<not> all_digits v"
    using that by (simp add: normalizeSizeValue_def Let_def)
  have 3: "all_digits ''300''"
    by (simp add: all_digits_def is_digit_def)
  have 4: "trim ''50%'' = ''50%''" "\<not> all_digits ''50%''"
    "trim ''auto'' = ''auto''" "\<not> all_digits ''auto''"
    by (simp_all add: trim_def is_space_def all_digits_def is_digit_def)
  have 5: "normalizeSizeValue ''50%'' = ''50%''" "normalizeSizeValue ''auto'' = ''auto''"
    using 4 by (simp_all add: normalizeSizeValue_def Let_def)
  have 6: "normalizeSizeValue ''300'' = ''300px''"
    using 3 all_digits_trim [OF 3] all_digits_not_percent [OF 3]
    by (simp add: normalizeSizeValue_def Let_def)
  from 1 2 5 6 show ?thesis by simp
qed

theorem normalizeSizeValue_spec_witness:
  "all_digits ''42'' \<and> normalizeSizeValue ''42'' = ''42px''
   \<and> trim ''2.5em'' = ''2.5em'' \<and> \<not> all_digits ''2.5em''
   \<and> normalizeSizeValue ''2.5em'' = ''2.5em''"
proof -
  have a: "all_digits ''42''" by (simp add: all_digits_def is_digit_def)
  have b: "trim ''2.5em'' = ''2.5em''" "\<not> all_digits ''2.5em''"
    by (simp_all add: trim_def is_space_def all_digits_def is_digit_def)
  from a b normalizeSizeValue_spec [of "''42''"] normalizeSizeValue_spec [of "''2.5em''"]
  show ?thesis by simp
qed

section \<open>Properties of the editing session\<close>

subsection \<open>Ranges of the document\<close>

lemma length_format_nodes [simp]:
  "i + n \<le> length ns \<Longrightarrow> length (format_nodes i n name v ns) = length ns"
  by (simp add: format_nodes_def)

lemma nth_format_nodes:
  assumes "i + n \<le> length ns" "k < length ns"
  shows "format_nodes i n name v ns ! k =
         (if i \<le> k \<and> k < i + n then format_node name v (ns ! k) else ns ! k)"
  using assms by (auto simp: format_nodes_def nth_append min_def)

lemma in_take_drop:
  assumes "i + n \<le> length ns" "i \<le> k" "k < i + n"
  shows "ns ! k \<in> set (take n (drop i ns))"
proof -
  have l: "length (take n (drop i ns)) = n" using assms by simp
  have "k - i < n" using assms by arith
  then have "take n (drop i ns) ! (k - i) \<in> set (take n (drop i ns))"
    using l by (metis nth_mem)
  moreover have "take n (drop i ns) ! (k - i) = ns ! k"
    using assms by simp
  ultimately show ?thesis by simp
qed

lemma take_drop_D:
  assumes "x \<in> set (take n (drop i ns))"
  shows "\<exists>k. i \<le> k \<and> k < i + n \<and> k < length ns \<and> x = ns ! k"
proof -
  from assms obtain j where j: "j < length (take n (drop i ns))" "x = take n (drop i ns) ! j"
    by (metis in_set_conv_nth)
  then have b: "j < n" "i + j < length ns" by auto
  then have "i \<le> length ns" by arith
  with j have "x = ns ! (i + j)" by simp
  with b have "i \<le> i + j \<and> i + j < i + n \<and> i + j < length ns \<and> x = ns ! (i + j)" by simp
  then show ?thesis by blast
qed

lemma common_attrs_all:
  assumes "ns \<noteq> []" "\<forall>x\<in>set ns. attrs x name = v"
  shows "common_attrs ns name = v"
  using assms by (cases ns) (auto simp: common_attrs_def list_all_iff)

lemma common_attrs_falsy:
  assumes "x \<in> set ns" "\<not> truthy (attrs x name)"
  shows "\<not> truthy (common_attrs ns name)"
  using assms by (cases ns) (auto simp: common_attrs_def list_all_iff truthy_def)

lemma toggle_not_list: "fmt \<in> set toggle_formats \<Longrightarrow> fmt \<noteq> ''list'' \<and> fmt \<noteq> ''size''"
  by (auto simp: toggle_formats_def)

subsection \<open>Formatting needs a range\<close>

text \<open>
  Claim C3. With the editor mounted, a range-requiring format (bold, italic, underline,
  strike, heading size, ordered or bullet list) invoked with no live selection or with a
  caret is rejected: the handler emits one advisory notification of level \<open>Info\<close> (the
  empty-selection signal) and returns; the editor, and with it the document and its
  length, is unchanged.
\<close>

theorem handleFormat_empty_selection:
  assumes "editorRef s = Some e"
    and "getSelection e = None \<or> (\<exists>r. getSelection e = Some r \<and> len r = 0)"
    and "fmt \<in> set (''list'' # ''size'' # toggle_formats)"
  shows "\<exists>m. handleFormat fmt v s = (s\<lparr>toasts := toasts s @ [(Info, m)]\<rparr>, None)
             \<and> editorRef (fst (handleFormat fmt v s)) = Some e
             \<and> map_option getLength (editorRef (fst (handleFormat fmt v s))) = Some (getLength e)"
proof -
  consider (l) "fmt = ''list''" | (z) "fmt = ''size''"
    | (t) "fmt \<in> set toggle_formats" "fmt \<noteq> ''list''" "fmt \<noteq> ''size''"
    using assms(3) toggle_not_list by auto
  then show ?thesis
  proof cases
    case l
    with assms(1,2) show ?thesis
      by (auto simp: handleFormat_def toast_def Let_def)
  next
    case z
    with assms(1,2) show ?thesis
      by (auto simp: handleFormat_def toast_def Let_def)
  next
    case t
    with assms(1,2) show ?thesis
      by (auto simp: handleFormat_def toast_def Let_def)
  qed
qed

theorem handleFormat_empty_selection_witness:
  "editorRef (focus_lost link_app) = Some \<lparr>doc = document link_app, selection = None,
       cursor_format = no_attrs, focused = False, next_blot = 0\<rparr>
   \<and> ''list'' \<in> set (''list'' # ''size'' # toggle_formats)
   \<and> snd (handleFormat ''list'' (VStr ''ordered'') (focus_lost link_app)) = None
   \<and> document (fst (handleFormat ''list'' (VStr ''ordered'') (focus_lost link_app))) = document link_app
   \<and> length (toasts (fst (handleFormat ''list'' (VStr ''ordered'') (focus_lost link_app)))) = 1"
proof -
  let ?e = "\<lparr>doc = document link_app, selection = None,
       cursor_format = no_attrs, focused = False, next_blot = 0\<rparr>"
  have a: "editorRef (focus_lost link_app) = Some ?e"
    by (simp add: focus_lost_def handleSelectionChange_def link_app_def document_def)
  have b: "getSelection ?e = None \<or> (\<exists>r. getSelection ?e = Some r \<and> len r = 0)"
    by (simp add: getSelection_def)
  have c: "''list'' \<in> set (''list'' # ''size'' # toggle_formats)" by simp
  have t: "toasts (focus_lost link_app) = []"
    by (simp add: focus_lost_def handleSelectionChange_def link_app_def)
  from handleFormat_empty_selection [OF a b c, of "VStr ''ordered''"]
  obtain m where h: "handleFormat ''list'' (VStr ''ordered'') (focus_lost link_app)
      = ((focus_lost link_app)\<lparr>toasts := toasts (focus_lost link_app) @ [(Info, m)]\<rparr>, None)"
    by (elim exE conjE) (rule that; assumption)
  have "document (fst (handleFormat ''list'' (VStr ''ordered'') (focus_lost link_app))) = document link_app"
    unfolding h using a by (simp add: document_def)
  moreover have "length (toasts (fst (handleFormat ''list'' (VStr ''ordered'') (focus_lost link_app)))) = 1"
    unfolding h using t by simp
  moreover have "snd (handleFormat ''list'' (VStr ''ordered'') (focus_lost link_app)) = None"
    unfolding h by simp
  ultimately show ?thesis using a c by simp
qed

subsection \<open>Toggling a character format\<close>

lemma handleFormat_toggle:
  assumes "editorRef s = Some e" "selection e = Some \<lparr>index = i, len = n\<rparr>" "0 < n"
    "i + n \<le> length (doc e)" "fmt \<in> set toggle_formats"
  shows "handleFormat fmt v s =
    (s\<lparr>editorRef := Some (e\<lparr>doc := toggled fmt i n (doc e),
          selection := Some \<lparr>index = i + n, len = 0\<rparr>,
          cursor_format := set_attr fmt (VBool False) (cursor_format e)\<rparr>)\<rparr>, None)"
proof -
  have nl: "fmt \<noteq> ''list''" "fmt \<noteq> ''size''" using assms(5) toggle_not_list by auto
  have gf: "getFormat i n e = Inr (common_attrs (take n (drop i (doc e))))"
    using assms by (simp add: getFormat_def)
  show ?thesis
    using assms nl gf
    by (simp add: handleFormat_def getSelection_def Let_def finish_def formatText_def
        setSelection_def format_sel_def toggled_def)
qed

lemma attrs_format_node:
  "attrs (format_node fmt v x) name =
     (if name = fmt then (if v = VBool False then Undefined else v) else attrs x name)"
  by (simp add: format_node_def set_attr_def)

lemma item_format_node [simp]: "item (format_node fmt v x) = item x"
  by (simp add: format_node_def)

lemma attrs_format_nodes:
  assumes "i + n \<le> length ns" "k < length ns"
  shows "attrs (format_nodes i n fmt v ns ! k) name =
     (if i \<le> k \<and> k < i + n \<and> name = fmt then (if v = VBool False then Undefined else v)
      else attrs (ns ! k) name)"
  using assms by (simp add: nth_format_nodes attrs_format_node)

lemma item_format_nodes:
  assumes "i + n \<le> length ns" "k < length ns"
  shows "item (format_nodes i n fmt v ns ! k) = item (ns ! k)"
  using assms by (simp add: nth_format_nodes)

lemma common_attrs_range:
  assumes "i + n \<le> length ns" "0 < n" "\<forall>k. i \<le> k \<and> k < i + n \<longrightarrow> attrs (ns ! k) name = v"
  shows "common_attrs (take n (drop i ns)) name = v"
proof (rule common_attrs_all)
  have "ns ! i \<in> set (take n (drop i ns))"
    using assms(1,2) by (intro in_take_drop) simp_all
  then show "take n (drop i ns) \<noteq> []" by (metis empty_iff empty_set)
  show "\<forall>x\<in>set (take n (drop i ns)). attrs x name = v"
  proof
    fix x assume "x \<in> set (take n (drop i ns))"
    from take_drop_D [OF this]
    obtain k where "i \<le> k" "k < i + n" "x = ns ! k" by blast
    with assms(3) show "attrs x name = v" by simp
  qed
qed

lemma length_toggled [simp]: "i + n \<le> length ns \<Longrightarrow> length (toggled fmt i n ns) = length ns"
  by (simp add: toggled_def)

lemma attrs_toggled:
  assumes "i + n \<le> length ns" "k < length ns"
  shows "attrs (toggled fmt i n ns ! k) name =
     (if i \<le> k \<and> k < i + n \<and> name = fmt
      then (if truthy (common_attrs (take n (drop i ns)) fmt) then Undefined else VBool True)
      else attrs (ns ! k) name)"
  using assms by (simp add: toggled_def attrs_format_nodes)

lemma item_toggled:
  assumes "i + n \<le> length ns" "k < length ns"
  shows "item (toggled fmt i n ns ! k) = item (ns ! k)"
  using assms by (simp add: toggled_def item_format_nodes)

lemma common_attrs_toggled:
  assumes "i + n \<le> length ns" "0 < n"
  shows "truthy (common_attrs (take n (drop i (toggled fmt i n ns))) fmt)
         = (\<not> truthy (common_attrs (take n (drop i ns)) fmt))"
proof -
  let ?v = "if truthy (common_attrs (take n (drop i ns)) fmt) then Undefined else VBool True"
  have "common_attrs (take n (drop i (toggled fmt i n ns))) fmt = ?v"
  proof (rule common_attrs_range)
    show "i + n \<le> length (toggled fmt i n ns)" using assms(1) by simp
    show "0 < n" by fact
    show "\<forall>k. i \<le> k \<and> k < i + n \<longrightarrow> attrs (toggled fmt i n ns ! k) fmt = ?v"
      using assms(1) by (simp add: attrs_toggled)
  qed
  then show ?thesis by (simp add: truthy_def)
qed

lemma attrs_toggled_twice:
  assumes "i + n \<le> length ns" "0 < n" "k < length ns"
  shows "attrs (toggled fmt i n (toggled fmt i n ns) ! k) name =
     (if i \<le> k \<and> k < i + n \<and> name = fmt
      then (if truthy (common_attrs (take n (drop i ns)) fmt) then VBool True else Undefined)
      else attrs (ns ! k) name)"
  using assms by (simp add: attrs_toggled common_attrs_toggled)

lemma user_select_editor:
  "editorRef s = Some e \<Longrightarrow>
   editorRef (user_select i n s) = Some (e\<lparr>selection := Some \<lparr>index = i, len = n\<rparr>\<rparr>)"
  by (simp add: user_select_def handleSelectionChange_def)

text \<open>
  Claim C2 (as amended). Take a non-empty range inside the document that is uniformly
  formatted, and one of the toggles bold, italic, underline, strike. The first toggle
  leaves a caret after the range, so the range is selected again before the second toggle.
  After the two toggles the format of every position of the range is in its original
  state: where it was \<open>true\<close> at every position of the range it is \<open>true\<close> at every
  position again, and where it was off at every position it is off at every position
  again. Nothing else changes: the other attributes, the positions outside the range and
  the content of every node are as before.
\<close>

theorem toggle_twice_reselected:
  assumes "editorRef s = Some e" and "selection e = Some \<lparr>index = i, len = n\<rparr>" and "0 < n"
    and "i + n \<le> length (doc e)" and "fmt \<in> set toggle_formats"
  shows "\<exists>s1 s2 e2.
      handleFormat fmt v s = (s1, None)
    \<and> handleFormat fmt v (user_select i n s1) = (s2, None)
    \<and> editorRef s2 = Some e2
    \<and> length (doc e2) = length (doc e)
    \<and> ((\<forall>k. i \<le> k \<and> k < i + n \<longrightarrow> attrs (doc e ! k) fmt = VBool True)
        \<longrightarrow> (\<forall>k. i \<le> k \<and> k < i + n \<longrightarrow> attrs (doc e2 ! k) fmt = VBool True))
    \<and> ((\<forall>k. i \<le> k \<and> k < i + n \<longrightarrow> \<not> truthy (attrs (doc e ! k) fmt))
        \<longrightarrow> (\<forall>k. i \<le> k \<and> k < i + n \<longrightarrow> \<not> truthy (attrs (doc e2 ! k) fmt)))
    \<and> (\<forall>k name. k < length (doc e) \<and> \<not> (i \<le> k \<and> k < i + n \<and> name = fmt)
        \<longrightarrow> attrs (doc e2 ! k) name = attrs (doc e ! k) name)
    \<and> (\<forall>k. k < length (doc e) \<longrightarrow> item (doc e2 ! k) = item (doc e ! k))"
proof -
  let ?ns = "doc e"
  let ?en = "truthy (common_attrs (take n (drop i ?ns)) fmt)"
  define e1 where "e1 = e\<lparr>doc := toggled fmt i n ?ns, selection := Some \<lparr>index = i + n, len = 0\<rparr>,
          cursor_format := set_attr fmt (VBool False) (cursor_format e)\<rparr>"
  define s1 where "s1 = s\<lparr>editorRef := Some e1\<rparr>"
  define e1' where "e1' = e1\<lparr>selection := Some \<lparr>index = i, len = n\<rparr>\<rparr>"
  define e2 where "e2 = e1'\<lparr>doc := toggled fmt i n (doc e1'), selection := Some \<lparr>index = i + n, len = 0\<rparr>,
          cursor_format := set_attr fmt (VBool False) (cursor_format e1')\<rparr>"
  define s2 where "s2 = (user_select i n s1)\<lparr>editorRef := Some e2\<rparr>"
  have h1: "handleFormat fmt v s = (s1, None)"
    unfolding s1_def e1_def using assms by (rule handleFormat_toggle)
  have u: "editorRef (user_select i n s1) = Some e1'"
    unfolding e1'_def by (rule user_select_editor) (simp add: s1_def)
  have d1: "doc e1' = toggled fmt i n ?ns" by (simp add: e1'_def e1_def)
  have h2: "handleFormat fmt v (user_select i n s1) = (s2, None)"
    unfolding s2_def e2_def
  proof (rule handleFormat_toggle [OF u _ assms(3) _ assms(5)])
    show "selection e1' = Some \<lparr>index = i, len = n\<rparr>" by (simp add: e1'_def)
    show "i + n \<le> length (doc e1')" using assms(4) by (simp add: d1)
  qed
  have d2: "doc e2 = toggled fmt i n (toggled fmt i n ?ns)" by (simp add: e2_def d1)
  have a2: "attrs (doc e2 ! k) name =
     (if i \<le> k \<and> k < i + n \<and> name = fmt then (if ?en then VBool True else Undefined)
      else attrs (?ns ! k) name)" if "k < length ?ns" for k name
    unfolding d2 using assms(4,3) that by (rule attrs_toggled_twice)
  have c2: "item (doc e2 ! k) = item (?ns ! k)" if "k < length ?ns" for k
    unfolding d2 using assms(4) that by (simp add: item_toggled)
  have l2: "length (doc e2) = length ?ns" unfolding d2 using assms(4) by simp
  have p1: "\<forall>k. i \<le> k \<and> k < i + n \<longrightarrow> attrs (doc e2 ! k) fmt = VBool True"
    if all: "\<forall>k. i \<le> k \<and> k < i + n \<longrightarrow> attrs (?ns ! k) fmt = VBool True"
  proof -
    have "common_attrs (take n (drop i ?ns)) fmt = VBool True"
      using assms(4,3) all by (rule common_attrs_range)
    then have "?en" by (simp add: truthy_def)
    then show ?thesis using a2 assms(4) by simp
  qed
  have p2: "\<forall>k. i \<le> k \<and> k < i + n \<longrightarrow> \<not> truthy (attrs (doc e2 ! k) fmt)"
    if off: "\<forall>k. i \<le> k \<and> k < i + n \<longrightarrow> \<not> truthy (attrs (?ns ! k) fmt)"
  proof -
    from off assms(3) have "\<not> truthy (attrs (?ns ! i) fmt)" by simp
    with assms(3) obtain j where j: "i \<le> j" "j < i + n" "\<not> truthy (attrs (?ns ! j) fmt)"
      by (intro that [of i]) simp_all
    have "?ns ! j \<in> set (take n (drop i ?ns))" using assms(4) j(1,2) by (rule in_take_drop)
    then have "\<not> ?en" using j(3) by (rule common_attrs_falsy)
    then show ?thesis using a2 assms(4) by (simp add: truthy_def)
  qed
  have p3: "\<forall>k name. k < length ?ns \<and> \<not> (i \<le> k \<and> k < i + n \<and> name = fmt)
        \<longrightarrow> attrs (doc e2 ! k) name = attrs (?ns ! k) name"
    using a2 by simp
  have "editorRef s2 = Some e2" by (simp add: s2_def)
  with h1 h2 l2 p1 p2 p3 c2 show ?thesis by blast
qed

text \<open>
  The claim as stated fails on a mixed range. In the two-character document whose first
  character is bold and whose second is not, with both selected, two toggles with the
  range selected again leave both characters not bold; two toggles in direct succession
  leave both bold, since the second call finds a caret and is rejected. Neither is the
  original state.
\<close>

theorem toggle_twice_mixed_counterexample:
  "format_states ''bold'' mixed_app = Some [True, False]
   \<and> format_states ''bold'' (fst (handleFormat ''bold'' Undefined
        (user_select 0 2 (fst (handleFormat ''bold'' Undefined mixed_app))))) = Some [False, False]
   \<and> format_states ''bold'' (fst (handleFormat ''bold'' Undefined
        (fst (handleFormat ''bold'' Undefined mixed_app)))) = Some [True, True]"
proof -
  have t: "''bold'' \<in> set toggle_formats" by (simp add: toggle_formats_def)
  show ?thesis
    by (simp add: format_states_def mixed_app_def handleFormat_def user_select_def
        handleSelectionChange_def getSelection_def getFormat_def formatText_def setSelection_def
        format_sel_def finish_def format_nodes_def format_node_def set_attr_def common_attrs_def
        truthy_def no_attrs_def toggle_formats_def toast_def Let_def)
qed

lemma map_two: "length xs = 2 \<Longrightarrow> map f xs = [f (xs ! 0), f (xs ! 1)]"
  by (cases xs; cases "tl xs") auto

theorem toggle_twice_reselected_witness:
  "editorRef bold_app = Some \<lparr>doc = document bold_app, selection = Some \<lparr>index = 0, len = 2\<rparr>,
                                cursor_format = no_attrs, focused = True, next_blot = 0\<rparr>
   \<and> (0::nat) < 2 \<and> 0 + 2 \<le> length (document bold_app) \<and> ''bold'' \<in> set toggle_formats
   \<and> format_states ''bold'' bold_app = Some [True, True]
   \<and> format_states ''bold'' (fst (handleFormat ''bold'' Undefined
        (user_select 0 2 (fst (handleFormat ''bold'' Undefined bold_app))))) = Some [True, True]"
proof -
  let ?e = "\<lparr>doc = document bold_app, selection = Some \<lparr>index = 0, len = 2\<rparr>,
             cursor_format = no_attrs, focused = True, next_blot = 0\<rparr>"
  have a: "editorRef bold_app = Some ?e" by (simp add: bold_app_def document_def)
  have b: "selection ?e = Some \<lparr>index = 0, len = 2\<rparr>" by simp
  have c: "(0::nat) < 2" by simp
  have d: "0 + 2 \<le> length (doc ?e)" by (simp add: bold_app_def document_def)
  have t: "''bold'' \<in> set toggle_formats" by (simp add: toggle_formats_def)
  have o: "\<forall>k. 0 \<le> k \<and> k < 0 + 2 \<longrightarrow> attrs (doc ?e ! k) ''bold'' = VBool True"
    by (simp add: bold_app_def document_def less_Suc_eq numeral_2_eq_2)
  have f0: "format_states ''bold'' bold_app = Some [True, True]"
    by (simp add: format_states_def bold_app_def truthy_def)
  from toggle_twice_reselected [OF a b c d t, of Undefined]
  obtain s1 s2 e2 where h: "handleFormat ''bold'' Undefined bold_app = (s1, None)"
    "handleFormat ''bold'' Undefined (user_select 0 2 s1) = (s2, None)" "editorRef s2 = Some e2"
    "length (doc e2) = length (doc ?e)"
    "(\<forall>k. 0 \<le> k \<and> k < 0 + 2 \<longrightarrow> attrs (doc ?e ! k) ''bold'' = VBool True)
        \<longrightarrow> (\<forall>k. 0 \<le> k \<and> k < 0 + 2 \<longrightarrow> attrs (doc e2 ! k) ''bold'' = VBool True)"
    by (elim exE conjE) (rule that; assumption)
  from h(5) o have r: "attrs (doc e2 ! 0) ''bold'' = VBool True" "attrs (doc e2 ! 1) ''bold'' = VBool True"
    by simp_all
  from h(4) have "length (doc e2) = 2" by (simp add: bold_app_def document_def)
  then have "map (\<lambda>x. truthy (attrs x ''bold'')) (doc e2) = [True, True]"
    using r by (simp add: map_two truthy_def)
  then have "format_states ''bold'' s2 = Some [True, True]"
    using h(3) by (simp add: format_states_def)
  with h(1,2) have "format_states ''bold'' (fst (handleFormat ''bold'' Undefined
        (user_select 0 2 (fst (handleFormat ''bold'' Undefined bold_app))))) = Some [True, True]"
    by simp
  with a c d t f0 show ?thesis by simp
qed

subsection \<open>Link insertion after the dialog took the focus\<close>

lemma handleInsertLink_cached:
  assumes "editorRef s = Some e" and "getSelection e = None"
    and "lastSelectionRef s = Some r" and "0 < len r" and "index r + len r \<le> length (doc e)"
  shows "handleInsertLink url s =
     (s\<lparr>editorRef := Some (e\<lparr>doc := format_nodes (index r) (len r) ''link'' (VStr (with_scheme url)) (doc e),
                             selection := Some \<lparr>index = index r + len r, len = 0\<rparr>,
                             focused := True\<rparr>),
        lastSelectionRef := None\<rparr>, None)"
  using assms
  by (simp add: handleInsertLink_def Let_def finish_def formatText_def setSelection_def focus_def)

lemma handleInsertLink_live:
  assumes "editorRef s = Some e" and "getSelection e = Some r"
    and "0 < len r" and "index r + len r \<le> length (doc e)"
  shows "handleInsertLink url s =
     (s\<lparr>editorRef := Some (e\<lparr>doc := format_nodes (index r) (len r) ''link'' (VStr (with_scheme url)) (doc e),
                             selection := Some \<lparr>index = index r + len r, len = 0\<rparr>,
                             focused := True\<rparr>),
        lastSelectionRef := None\<rparr>, None)"
  using assms
  by (simp add: handleInsertLink_def Let_def finish_def formatText_def setSelection_def focus_def)

lemma handleInsertLink_caret_at_end:
  assumes "editorRef s = Some e" and "getSelection e = None" and "lastSelectionRef s = None"
  shows "handleInsertLink url s =
     (s\<lparr>editorRef := Some (e\<lparr>doc := take (length (doc e) - 1) (doc e)
                                      @ map (\<lambda>c. \<lparr>item = TextChar c,
                                                     attrs = no_attrs(''link'' := VStr (with_scheme url))\<rparr>)
                                          (with_scheme url)
                                      @ drop (length (doc e) - 1) (doc e),
                             selection := Some \<lparr>index = length (doc e) - 1 + length (with_scheme url),
                                                len = 0\<rparr>,
                             focused := True\<rparr>),
        lastSelectionRef := None\<rparr>, None)"
  using assms
  by (simp add: handleInsertLink_def Let_def finish_def insertText_def setSelection_def focus_def
      getLength_def)

text \<open>
  Claim C4, evaluated on the code. In the document \<open>abcdef\<close> with its final line feed, the
  selection \<open>{index: 2, length: 3}\<close> is live when the link dialog is opened, and
  \<open>openLinkModal\<close> caches it. The focus then leaves the surface for the dialog: the live
  selection becomes null, the surface notifies the tracker of the null selection, and
  \<open>handleSelectionChange\<close> sets the cache to null. When \<open>handleInsertLink\<close> runs there is
  neither a live nor a cached selection: it does not call \<open>formatText\<close> at index 2 with
  length 3 but inserts the URL as twelve new linked characters before the final line feed.
  The units at offsets 2, 3 and 4 are left without a link.
\<close>

theorem link_after_focus_loss_goes_to_end:
  "map_option getSelection (editorRef link_app) = Some (Some \<lparr>index = 2, len = 3\<rparr>)
   \<and> lastSelectionRef (openLinkModal link_app) = Some \<lparr>index = 2, len = 3\<rparr>
   \<and> map_option getSelection (editorRef (focus_lost (openLinkModal link_app))) = Some None
   \<and> lastSelectionRef (focus_lost (openLinkModal link_app)) = None
   \<and> snd (handleInsertLink ''https://a.io'' (focus_lost (openLinkModal link_app))) = None
   \<and> map item
        (document (fst (handleInsertLink ''https://a.io'' (focus_lost (openLinkModal link_app)))))
      = map TextChar (''abcdef'' @ ''https://a.io'' @ [CHR 0x0A])
   \<and> map (\<lambda>x. attrs x ''link'')
        (document (fst (handleInsertLink ''https://a.io'' (focus_lost (openLinkModal link_app)))))
      = replicate 6 Undefined @ replicate 12 (VStr ''https://a.io'') @ [Undefined]"
proof -
  let ?e = "\<lparr>doc = document link_app, selection = Some \<lparr>index = 2, len = 3\<rparr>,
             cursor_format = no_attrs, focused = True, next_blot = 0\<rparr>"
  let ?e1 = "?e\<lparr>selection := None, focused := False\<rparr>"
  let ?s = "focus_lost (openLinkModal link_app)"
  have a: "editorRef link_app = Some ?e" by (simp add: link_app_def document_def)
  have b: "map_option getSelection (editorRef link_app) = Some (Some \<lparr>index = 2, len = 3\<rparr>)"
    unfolding a by (simp add: getSelection_def)
  have c: "lastSelectionRef (openLinkModal link_app) = Some \<lparr>index = 2, len = 3\<rparr>"
    using a by (simp add: openLinkModal_def getSelection_def Let_def)
  have e1: "editorRef ?s = Some ?e1"
    using a by (simp add: focus_lost_def handleSelectionChange_def openLinkModal_def
        getSelection_def Let_def)
  have g: "getSelection ?e1 = None" by (simp add: getSelection_def)
  have l: "lastSelectionRef ?s = None" by (simp add: focus_lost_def handleSelectionChange_def)
  have w: "with_scheme ''https://a.io'' = ''https://a.io''"
    by (simp add: with_scheme_def startsWith_def)
  note h = handleInsertLink_caret_at_end [OF e1 g l, of "''https://a.io''", unfolded w]
  have d: "document (fst (handleInsertLink ''https://a.io'' ?s))
      = take 6 (document link_app)
        @ map (\<lambda>c. \<lparr>item = TextChar c, attrs = no_attrs(''link'' := VStr ''https://a.io'')\<rparr>)
            ''https://a.io''
        @ drop 6 (document link_app)"
    unfolding h by (simp add: document_def link_app_def)
  have 1: "map_option getSelection (editorRef ?s) = Some None" unfolding e1 using g by simp
  have 2: "snd (handleInsertLink ''https://a.io'' ?s) = None" unfolding h by simp
  have 3: "map item (document (fst (handleInsertLink ''https://a.io'' ?s)))
      = map TextChar (''abcdef'' @ ''https://a.io'' @ [CHR 0x0A])"
    unfolding d by (simp add: document_def link_app_def)
  have 4: "map (\<lambda>x. attrs x ''link'') (document (fst (handleInsertLink ''https://a.io'' ?s)))
      = replicate 6 Undefined @ replicate 12 (VStr ''https://a.io'') @ [Undefined]"
    unfolding d by (simp add: document_def link_app_def no_attrs_def numeral_eq_Suc)
  from b c 1 l 2 3 4 show ?thesis by (intro conjI)
qed

subsection \<open>Link URLs carry a scheme\<close>

lemma with_scheme_cases:
  "(has_scheme url \<and> with_scheme url = url) \<or> (\<not> has_scheme url \<and> with_scheme url = ''https://'' @ url)"
  by (cases "startsWith url ''http://''"; cases "startsWith url ''https://''";
      simp add: with_scheme_def has_scheme_def)

lemma has_scheme_https: "has_scheme (''https://'' @ url)"
  by (simp add: has_scheme_def startsWith_def)

lemma has_scheme_with_scheme: "has_scheme (with_scheme url)"
  using with_scheme_cases [of url] has_scheme_https [of url] by metis

lemma attr_ok_refl: "attr_ok name v ns ns"
  by (simp add: attr_ok_def)

lemma attrs_format_node_same:
  "v \<noteq> VBool False \<Longrightarrow> attrs (format_node name v y) name = v"
  by (simp add: attrs_format_node)

lemma attr_ok_format:
  assumes "attr_ok name v ns ms" "v \<noteq> VBool False"
  shows "attr_ok name v ns (format_nodes i n name v ms)"
  unfolding attr_ok_def
proof
  fix x assume "x \<in> set (format_nodes i n name v ms)"
  then have "x \<in> set (take i ms) \<or> x \<in> format_node name v ` set (take n (drop i ms))
    \<or> x \<in> set (drop (i + n) ms)"
    by (simp add: format_nodes_def)
  then consider "x \<in> set (take i ms)" | "x \<in> format_node name v ` set (take n (drop i ms))"
    | "x \<in> set (drop (i + n) ms)"
    by blast
  then show "x \<in> set ns \<or> attrs x name = v"
  proof cases
    case 1
    then have "x \<in> set ms" by (rule in_set_takeD)
    with assms show ?thesis by (simp add: attr_ok_def)
  next
    case 2
    then obtain y where "x = format_node name v y" by (rule imageE)
    then show ?thesis using assms(2) by (simp add: attrs_format_node_same)
  next
    case 3
    then have "x \<in> set ms" by (rule in_set_dropD)
    with assms show ?thesis by (simp add: attr_ok_def)
  qed
qed

lemma attr_ok_insert:
  assumes "attr_ok name v ns ms" "a name = v"
  shows "attr_ok name v ns (take i ms @ map (\<lambda>c. \<lparr>item = TextChar c, attrs = a\<rparr>) t @ drop i ms)"
  unfolding attr_ok_def
proof
  fix x
  assume "x \<in> set (take i ms @ map (\<lambda>c. \<lparr>item = TextChar c, attrs = a\<rparr>) t @ drop i ms)"
  then have "x \<in> set (take i ms) \<or> x \<in> (\<lambda>c. \<lparr>item = TextChar c, attrs = a\<rparr>) ` set t
    \<or> x \<in> set (drop i ms)"
    by simp
  then consider "x \<in> set (take i ms)"
    | "x \<in> (\<lambda>c. \<lparr>item = TextChar c, attrs = a\<rparr>) ` set t"
    | "x \<in> set (drop i ms)"
    by blast
  then show "x \<in> set ns \<or> attrs x name = v"
  proof cases
    case 1
    then have "x \<in> set ms" by (rule in_set_takeD)
    with assms show ?thesis by (simp add: attr_ok_def)
  next
    case 2
    then obtain c where "x = \<lparr>item = TextChar c, attrs = a\<rparr>"
      by (rule imageE)
    then show ?thesis using assms(2) by simp
  next
    case 3
    then have "x \<in> set ms" by (rule in_set_dropD)
    with assms show ?thesis by (simp add: attr_ok_def)
  qed
qed

lemma run_calls_invariant:
  assumes "P e" and "\<And>f a b. f \<in> set fs \<Longrightarrow> P a \<Longrightarrow> f a = Inr b \<Longrightarrow> P b"
  shows "P (fst (run_calls e fs))"
  using assms
proof (induction fs arbitrary: e)
  case Nil
  then show ?case by simp
next
  case (Cons f fs)
  show ?case
  proof (cases "f e")
    case (Inl err)
    with Cons.prems(1) show ?thesis by simp
  next
    case (Inr e')
    have "P e'" using Cons.prems(2) [of f e e'] Cons.prems(1) Inr by simp
    have "P (fst (run_calls e' fs))"
    proof (rule Cons.IH [OF \<open>P e'\<close>])
      fix g a b assume "g \<in> set fs" "P a" "g a = Inr b"
      then show "P b" using Cons.prems(2) [of g a b] by simp
    qed
    with Inr show ?thesis by simp
  qed
qed

lemma run_calls_three:
  assumes "P e"
    and "\<And>a b. P a \<Longrightarrow> f1 a = Inr b \<Longrightarrow> P b"
    and "\<And>a b. P a \<Longrightarrow> f2 a = Inr b \<Longrightarrow> P b"
    and "\<And>a b. P a \<Longrightarrow> f3 a = Inr b \<Longrightarrow> P b"
  shows "P (fst (run_calls e [f1, f2, f3]))"
proof (rule run_calls_invariant [where P = P, OF assms(1)])
  fix f a b assume "f \<in> set [f1, f2, f3]" "P a" "f a = Inr b"
  then consider "f = f1" | "f = f2" | "f = f3" by auto
  then show "P b" using assms(2-4) \<open>P a\<close> \<open>f a = Inr b\<close> by cases blast+
qed

lemma doc_setSelection: "setSelection i n a = Inr b \<Longrightarrow> doc b = doc a"
  by (cases "i + n \<le> length (doc a)") (auto simp: setSelection_def)

lemma doc_focus: "Inr (focus a) = (Inr b :: error + editor) \<Longrightarrow> doc b = doc a"
  by (auto simp: focus_def)

lemma doc_formatText:
  "formatText i n name v a = Inr b \<Longrightarrow> doc b = format_nodes i n name v (doc a)"
  by (cases "i + n \<le> length (doc a)") (auto simp: formatText_def)

lemma doc_insertText:
  "insertText i t at a = Inr b \<Longrightarrow>
   doc b = take i (doc a) @ map (\<lambda>c. \<lparr>item = TextChar c, attrs = at\<rparr>) t @ drop i (doc a)"
  by (cases "i \<le> length (doc a)") (auto simp: insertText_def)

lemma document_finish:
  "document (fst (finish s (\<lambda>s'. s'\<lparr>lastSelectionRef := None\<rparr>) r)) = doc (fst r)"
  by (cases r; cases "snd r") (simp_all add: finish_def document_def)

lemma handleInsertLink_attr_ok:
  "attr_ok ''link'' (VStr (with_scheme url)) (document s) (document (fst (handleInsertLink url s)))"
proof (cases "editorRef s")
  case None
  then show ?thesis by (simp add: handleInsertLink_def attr_ok_refl)
next
  case (Some editor)
  define u where "u = with_scheme url"
  define nm where "nm = ''link''"
  define P where "P = (\<lambda>e :: editor. attr_ok nm (VStr u) (doc editor) (doc e))"
  have P0: "P editor" unfolding P_def by (rule attr_ok_refl)
  have sel: "P b" if "P a" "setSelection i n a = Inr b" for a b i n
    using that doc_setSelection [OF that(2)] by (simp add: P_def)
  have foc: "P b" if "P a" "Inr (focus a) = (Inr b :: error + editor)" for a b
    using that doc_focus [OF that(2)] by (simp add: P_def)
  have fmt: "P b" if "P a" "formatText i n nm (VStr u) a = Inr b" for a b i n
    using that(1) doc_formatText [OF that(2)] attr_ok_format [of nm "VStr u" "doc editor" "doc a" i n]
    by (simp add: P_def)
  have ins: "P b" if "P a" "insertText i t (no_attrs(nm := VStr u)) a = Inr b" for a b i t
    using that(1) doc_insertText [OF that(2)]
      attr_ok_insert [of nm "VStr u" "doc editor" "doc a" "no_attrs(nm := VStr u)" i t]
    by (simp add: P_def)
  have r1: "P (fst (run_calls editor [formatText i n nm (VStr u), setSelection j 0,
                 \<lambda>e. Inr (focus e)]))" for i n j
    using P0 fmt sel foc by (rule run_calls_three)
  have r2: "P (fst (run_calls editor [insertText i t (no_attrs(nm := VStr u)), setSelection j 0,
                 \<lambda>e. Inr (focus e)]))" for i j t
    using P0 ins sel foc by (rule run_calls_three)
  have d: "document s = doc editor" using Some by (simp add: document_def)
  have "attr_ok nm (VStr u) (doc editor) (document (fst (handleInsertLink url s)))"
    using Some r1 r2
    by (simp add: handleInsertLink_def Let_def document_finish P_def u_def nm_def
        del: run_calls.simps)
  then show ?thesis by (simp add: d u_def nm_def)
qed

lemma with_scheme_has: "has_scheme url \<Longrightarrow> with_scheme url = url"
  by (cases "startsWith url ''http://''"; cases "startsWith url ''https://''";
      simp add: with_scheme_def has_scheme_def)

lemma with_scheme_hasnt: "\<not> has_scheme url \<Longrightarrow> with_scheme url = ''https://'' @ url"
  by (simp add: with_scheme_def has_scheme_def)

lemma with_scheme_idem: "with_scheme (with_scheme url) = with_scheme url"
proof -
  from with_scheme_cases [of "with_scheme url"]
  have "with_scheme (with_scheme url) = with_scheme url \<or> \<not> has_scheme (with_scheme url)"
    by (elim disjE conjE) (rule disjI1, assumption, rule disjI2, assumption)
  with has_scheme_with_scheme [of url] show ?thesis by simp
qed

lemma document_handleSubmit:
  "document (fst (handleSubmit url s)) = document s
   \<or> document (fst (handleSubmit url s)) = document (fst (handleInsertLink (with_scheme (trim url)) s))"
proof (cases "trim url = []")
  case True
  then show ?thesis by (simp add: handleSubmit_def toast_def document_def)
next
  case False
  obtain s' r where h: "handleInsertLink (with_scheme (trim url)) s = (s', r)"
    by (cases "handleInsertLink (with_scheme (trim url)) s")
  show ?thesis
    using False h by (cases r) (simp_all add: handleSubmit_def document_def)
qed

text \<open>
  Claim C10. Every node of the document after \<open>handleInsertLink url\<close> was in the document
  before, or has the link value \<open>with_scheme url\<close>; the same holds after the dialog's
  \<open>handleSubmit url\<close> with the trimmed URL. That value always begins with \<open>http://\<close> or
  \<open>https://\<close>: it is the URL itself when the URL has one of the two prefixes, and the URL
  with \<open>https://\<close> prepended otherwise. So no link without a scheme is written.
\<close>

theorem link_urls_have_scheme:
  "(\<forall>x\<in>set (document (fst (handleInsertLink url s))).
       x \<in> set (document s) \<or> attrs x ''link'' = VStr (with_scheme url))
   \<and> (\<forall>x\<in>set (document (fst (handleSubmit url s))).
       x \<in> set (document s) \<or> attrs x ''link'' = VStr (with_scheme (trim url)))
   \<and> has_scheme (with_scheme url)
   \<and> (has_scheme url \<longrightarrow> with_scheme url = url)
   \<and> (\<not> has_scheme url \<longrightarrow> with_scheme url = ''https://'' @ url)"
proof -
  have 1: "\<forall>x\<in>set (document (fst (handleInsertLink url s))).
       x \<in> set (document s) \<or> attrs x ''link'' = VStr (with_scheme url)" for url
    using handleInsertLink_attr_ok [of url s] by (simp add: attr_ok_def)
  have 2: "\<forall>x\<in>set (document (fst (handleSubmit url s))).
       x \<in> set (document s) \<or> attrs x ''link'' = VStr (with_scheme (trim url))"
  proof (rule disjE [OF document_handleSubmit [of url s]])
    assume "document (fst (handleSubmit url s)) = document s"
    then show ?thesis by simp
  next
    assume "document (fst (handleSubmit url s))
      = document (fst (handleInsertLink (with_scheme (trim url)) s))"
    then show ?thesis using 1 [of "with_scheme (trim url)"] by (simp add: with_scheme_idem)
  qed
  have 3: "has_scheme url \<longrightarrow> with_scheme url = url"
    "\<not> has_scheme url \<longrightarrow> with_scheme url = ''https://'' @ url"
    by (simp_all add: with_scheme_has with_scheme_hasnt)
  show ?thesis
    using 1 [of url] 2 3 has_scheme_with_scheme [of url] by (intro conjI)
qed

theorem link_urls_have_scheme_witness:
  "\<not> has_scheme ''a.io'' \<and> with_scheme ''a.io'' = ''https://a.io''
   \<and> has_scheme ''https://a.io''
   \<and> \<lparr>item = TextChar CHR ''c'', attrs = no_attrs(''link'' := VStr ''https://a.io'')\<rparr>
       \<in> set (document (fst (handleInsertLink ''a.io'' (openLinkModal link_app))))
   \<and> (\<lparr>item = TextChar CHR ''c'', attrs = no_attrs(''link'' := VStr ''https://a.io'')\<rparr>
         \<in> set (document (openLinkModal link_app))
       \<or> attrs \<lparr>item = TextChar CHR ''c'', attrs = no_attrs(''link'' := VStr ''https://a.io'')\<rparr>
            ''link'' = VStr (with_scheme ''a.io''))"
proof -
  let ?x = "\<lparr>item = TextChar CHR ''c'', attrs = no_attrs(''link'' := VStr ''https://a.io'')\<rparr>"
  let ?s = "openLinkModal link_app"
  let ?e = "\<lparr>doc = document link_app, selection = Some \<lparr>index = 2, len = 3\<rparr>,
             cursor_format = no_attrs, focused = True, next_blot = 0\<rparr>"
  let ?r = "\<lparr>index = 2, len = 3\<rparr>"
  note T = link_urls_have_scheme [of "''a.io''" ?s]
  have n: "\<not> has_scheme ''a.io''" by (simp add: has_scheme_def startsWith_def)
  from T have "\<not> has_scheme ''a.io'' \<longrightarrow> with_scheme ''a.io'' = ''https://'' @ ''a.io''"
    by (elim conjE)
  with n have w: "with_scheme ''a.io'' = ''https://a.io''" by simp
  from T have "has_scheme (with_scheme ''a.io'')" by (elim conjE)
  then have h: "has_scheme ''https://a.io''" unfolding w .
  have a: "editorRef ?s = Some ?e"
    by (simp add: openLinkModal_def link_app_def document_def getSelection_def Let_def)
  have g: "getSelection ?e = Some ?r" by (simp add: getSelection_def)
  have p: "0 < len ?r" by simp
  have v: "index ?r + len ?r \<le> length (doc ?e)" by (simp add: link_app_def document_def)
  have d: "document (fst (handleInsertLink ''a.io'' ?s))
      = format_nodes 2 3 ''link'' (VStr ''https://a.io'') (document link_app)"
    unfolding handleInsertLink_live [OF a g p v, of "''a.io''"] w
    by (simp add: document_def)
  have m: "?x \<in> set (document (fst (handleInsertLink ''a.io'' ?s)))"
    unfolding d
    by (simp add: link_app_def document_def format_nodes_def format_node_def set_attr_def)
  from T have "\<forall>x\<in>set (document (fst (handleInsertLink ''a.io'' ?s))).
       x \<in> set (document ?s) \<or> attrs x ''link'' = VStr (with_scheme ''a.io'')"
    by (elim conjE)
  then have "?x \<in> set (document ?s) \<or> attrs ?x ''link'' = VStr (with_scheme ''a.io'')"
    using m by (rule bspec)
  with n w h m show ?thesis by (intro conjI)
qed

section \<open>Properties of the drag-move\<close>

lemma find_blot_Some:
  "find_blot b ns = Some i \<Longrightarrow> i < length ns \<and> is_embed (ns ! i)"
proof (induction ns arbitrary: i)
  case Nil
  then show ?case by simp
next
  case (Cons x xs)
  show ?case
  proof (cases "case item x of Embed b' _ \<Rightarrow> b' = b | TextChar _ \<Rightarrow> False")
    case True
    with Cons.prems have "i = 0" by simp
    moreover from True have "is_embed x" by (cases "item x") (simp_all add: is_embed_def)
    ultimately show ?thesis by simp
  next
    case False
    with Cons.prems obtain j where j: "find_blot b xs = Some j" "i = Suc j" by auto
    from Cons.IH [OF j(1)] j(2) show ?thesis by simp
  qed
qed

lemma has_blot_iff:
  "has_blot b ns \<longleftrightarrow> (\<exists>x\<in>set ns. \<exists>src. item x = Embed b src)"
proof (induction ns)
  case Nil
  then show ?case by (simp add: has_blot_def)
next
  case (Cons x xs)
  show ?case
  proof (cases "item x")
    case (TextChar c)
    with Cons show ?thesis by (simp add: has_blot_def)
  next
    case (Embed b' src)
    with Cons show ?thesis by (auto simp: has_blot_def)
  qed
qed

lemma has_blot_insert:
  assumes "has_blot b ns"
  shows "has_blot b (take i ns @ [x] @ drop i ns)"
proof -
  from assms obtain y src where y: "y \<in> set ns" "item y = Embed b src"
    unfolding has_blot_iff by blast
  have "set ns \<subseteq> set (take i ns @ [x] @ drop i ns)"
    by (metis append_take_drop_id set_append Un_iff subsetI append_Cons append_Nil list.set_intros(2) in_set_conv_decomp)
  with y show ?thesis unfolding has_blot_iff by blast
qed

lemma count_embeds_insert:
  "is_embed x \<Longrightarrow> count_embeds (take i ns @ [x] @ drop i ns) = Suc (count_embeds ns)"
proof -
  assume x: "is_embed x"
  have "count_embeds (take i ns @ [x] @ drop i ns)
      = length (filter is_embed (take i ns)) + 1 + length (filter is_embed (drop i ns))"
    using x by (simp add: count_embeds_def)
  also have "\<dots> = Suc (length (filter is_embed (take i ns @ drop i ns)))"
    by (simp del: append_take_drop_id)
  also have "\<dots> = Suc (count_embeds ns)" by (simp add: count_embeds_def)
  finally show ?thesis .
qed

lemma count_embeds_delete:
  assumes "i < length ns" "is_embed (ns ! i)"
  shows "Suc (count_embeds (take i ns @ drop (i + 1) ns)) = count_embeds ns"
proof -
  have "ns = take i ns @ [ns ! i] @ drop (i + 1) ns"
    using assms(1) by (simp add: id_take_nth_drop)
  then have "count_embeds ns = count_embeds (take i ns @ [ns ! i] @ drop (i + 1) ns)" by simp
  also have "\<dots> = Suc (count_embeds (take i ns @ drop (i + 1) ns))"
    using assms(2) by (simp add: count_embeds_def)
  finally show ?thesis by simp
qed


lemma is_embed_image_node [simp]: "is_embed (image_node b src)"
  by (simp add: is_embed_def image_node_def)

text \<open>
  Claim C8. A completed drag-move: the dragged blot is known and is in the document, the
  data transfer carries a source, and the destination offset is inside the document. The
  drop handler then inserts the copy and deletes one embed at the offset that the dragged
  blot has after the insertion, so the number of embeds in the document, and the length of
  the document, are the same before and after, wherever the source and the destination
  are.
\<close>

theorem drag_move_preserves_embed_count:
  assumes "quillRef u = Some e" and "draggedBlot (draggingState u) = Some b"
    and "has_blot b (doc e)" and "src \<noteq> []"
    and "drop_index (selection e) p (e\<lparr>focused := True\<rparr>) \<le> length (doc e)"
  shows "snd (drop_handler (Some src) p u) = None
    \<and> map_option (\<lambda>e'. count_embeds (doc e')) (quillRef (fst (drop_handler (Some src) p u)))
        = Some (count_embeds (doc e))
    \<and> map_option getLength (quillRef (fst (drop_handler (Some src) p u))) = Some (getLength e)
    \<and> draggedBlot (draggingState (fst (drop_handler (Some src) p u))) = None"
proof -
  define d where "d = drop_index (selection e) p (e\<lparr>focused := True\<rparr>)"
  define x where "x = \<lparr>item = Embed (next_blot e) src, attrs = no_attrs\<rparr>"
  define ns where "ns = take d (doc e) @ [x] @ drop d (doc e)"
  define e2 where "e2 = e\<lparr>focused := True, doc := ns, next_blot := Suc (next_blot e)\<rparr>"
  have dl: "d \<le> length (doc e)" using assms(5) by (simp add: d_def)
  have ins: "insertEmbed d src (e\<lparr>focused := True\<rparr>) = Inr e2"
    using dl by (simp add: insertEmbed_def e2_def ns_def x_def)
  have "has_blot b ns" unfolding ns_def using assms(3) by (rule has_blot_insert)
  then obtain j where j: "find_blot b ns = Some j" by (auto simp: has_blot_def)
  from find_blot_Some [OF j] have jl: "j < length ns" and je: "is_embed (ns ! j)" by simp_all
  have gi: "getIndex b e2 = Inr j" using j by (simp add: getIndex_def e2_def)
  define e3 where "e3 = e2\<lparr>doc := take j ns @ drop (j + 1) ns\<rparr>"
  have del: "deleteText j 1 e2 = Inr e3"
    using jl by (simp add: deleteText_def e2_def e3_def)
  define u' where "u' = u\<lparr>quillRef := Some e3,
       draggingState := \<lparr>draggedImgEl = None, draggedBlot = None, draggedSrc = None\<rparr>\<rparr>"
  have h: "drop_handler (Some src) p u = (u', None)"
    using assms(1,2,4) ins gi del
    by (simp add: drop_handler_def getSelection_focus_def Let_def d_def [symmetric] u'_def)
  have l: "length ns = Suc (length (doc e))" using dl by (simp add: ns_def)
  have "is_embed x" by (simp add: is_embed_def x_def)
  then have c1: "count_embeds ns = Suc (count_embeds (doc e))"
    unfolding ns_def by (rule count_embeds_insert)
  have "Suc (count_embeds (take j ns @ drop (j + 1) ns)) = count_embeds ns"
    using jl je by (rule count_embeds_delete)
  with c1 have c: "count_embeds (doc e3) = count_embeds (doc e)" by (simp add: e3_def)
  have "length (doc e3) = length (doc e)" using jl l by (simp add: e3_def)
  with c show ?thesis unfolding h by (simp add: getLength_def u'_def)
qed

theorem drag_move_preserves_embed_count_witness:
  "quillRef drag_uploader = Some drag_editor
   \<and> draggedBlot (draggingState drag_uploader) = Some 0
   \<and> has_blot 0 (doc drag_editor)
   \<and> drop_index (selection drag_editor) NoCaretRange (drag_editor\<lparr>focused := True\<rparr>) = 5
   \<and> drop_index (selection drag_editor) (CaretRange (Some 0)) (drag_editor\<lparr>focused := True\<rparr>) = 0
   \<and> find_blot 0 (doc drag_editor) = Some 2
   \<and> count_embeds (doc drag_editor) = 1
   \<and> map_option (\<lambda>e'. count_embeds (doc e'))
        (quillRef (fst (drop_handler (Some ''data:x'') NoCaretRange drag_uploader))) = Some 1
   \<and> map_option (\<lambda>e'. count_embeds (doc e'))
        (quillRef (fst (drop_handler (Some ''data:x'') (CaretRange (Some 0)) drag_uploader))) = Some 1"
proof -
  have a: "quillRef drag_uploader = Some drag_editor" by (simp add: drag_uploader_def)
  have b: "draggedBlot (draggingState drag_uploader) = Some 0" by (simp add: drag_uploader_def)
  have f: "find_blot 0 (doc drag_editor) = Some 2"
    by (simp add: drag_editor_def text_nodes_def image_node_def)
  then have c: "has_blot 0 (doc drag_editor)" by (simp add: has_blot_def)
  have s: "''data:x'' \<noteq> []" by simp
  have d1: "drop_index (selection drag_editor) NoCaretRange (drag_editor\<lparr>focused := True\<rparr>) = 5"
    by (simp add: drop_index_def drag_editor_def getLength_def text_nodes_def)
  have d2: "drop_index (selection drag_editor) (CaretRange (Some 0)) (drag_editor\<lparr>focused := True\<rparr>) = 0"
    by (simp add: drop_index_def drag_editor_def)
  have l: "length (doc drag_editor) = 5" by (simp add: drag_editor_def text_nodes_def)
  have n: "count_embeds (doc drag_editor) = 1"
    by (simp add: drag_editor_def text_nodes_def image_node_def count_embeds_def is_embed_def)
  have v1: "drop_index (selection drag_editor) NoCaretRange (drag_editor\<lparr>focused := True\<rparr>)
      \<le> length (doc drag_editor)" unfolding d1 l by simp
  have v2: "drop_index (selection drag_editor) (CaretRange (Some 0)) (drag_editor\<lparr>focused := True\<rparr>)
      \<le> length (doc drag_editor)" unfolding d2 l by simp
  from drag_move_preserves_embed_count [OF a b c s v1]
  have r1: "map_option (\<lambda>e'. count_embeds (doc e'))
        (quillRef (fst (drop_handler (Some ''data:x'') NoCaretRange drag_uploader))) = Some 1"
    unfolding n by (elim conjE)
  from drag_move_preserves_embed_count [OF a b c s v2]
  have r2: "map_option (\<lambda>e'. count_embeds (doc e'))
        (quillRef (fst (drop_handler (Some ''data:x'') (CaretRange (Some 0)) drag_uploader))) = Some 1"
    unfolding n by (elim conjE)
  from a b c d1 d2 f n r1 r2 show ?thesis by (intro conjI)
qed

section \<open>Properties of the draft persistence\<close>

lemma writes_advance:
  "writes (advance t st) =
     (case timer st of None \<Rightarrow> writes st
      | Some (due, d) \<Rightarrow> if due \<le> t then writes st @ [(due, d)] else writes st)"
  by (cases "timer st"; cases "accepts st (snd (the (timer st)))")
     (auto simp: advance_def fire_def setItem_def)

lemma timer_advance:
  "timer (advance t st) =
     (case timer st of None \<Rightarrow> None
      | Some (due, d) \<Rightarrow> if due \<le> t then None else Some (due, d))"
  by (cases "timer st") (auto simp: advance_def)

lemma now_advance [simp]: "now (advance t st) = max (now st) t"
  by (cases "timer st") (auto simp: advance_def)

lemma accepts_advance [simp]: "accepts (advance t st) = accepts st"
  by (cases "timer st"; cases "accepts st (snd (the (timer st)))")
     (auto simp: advance_def fire_def setItem_def)

lemma slot_advance:
  "slot (advance t st) =
     (case timer st of None \<Rightarrow> slot st
      | Some (due, d) \<Rightarrow> if due \<le> t \<and> accepts st d then Some d else slot st)"
  by (cases "timer st"; cases "accepts st (snd (the (timer st)))")
     (auto simp: advance_def fire_def setItem_def)

lemma useAutoSaveDraft_simps [simp]:
  "writes (useAutoSaveDraft d delay st) = writes st"
  "now (useAutoSaveDraft d delay st) = now st"
  "slot (useAutoSaveDraft d delay st) = slot st"
  "accepts (useAutoSaveDraft d delay st) = accepts st"
  "timer (useAutoSaveDraft d delay st) = (if hasContent d then Some (now st + delay, d) else None)"
  by (simp_all add: useAutoSaveDraft_def clearTimeout_def Let_def)


subsection \<open>The debounced write\<close>

lemma scenario_state:
  fixes d0 d1 :: draft and st :: autosave
  assumes "hasContent d1" "now st = 0" "timer st = None" "writes st = []"
  defines "st4 \<equiv> steps 30 [Tick 0, Render d0, Tick 10, Render d1] st"
  shows "timer st4 = Some (40, d1)" "writes st4 = []" "slot st4 = slot st" "accepts st4 = accepts st"
proof -
  let ?s1 = "advance 0 st"
  let ?s2 = "useAutoSaveDraft d0 30 ?s1"
  let ?s3 = "advance 10 ?s2"
  have e: "st4 = useAutoSaveDraft d1 30 ?s3" by (simp add: st4_def steps_def)
  have t1: "timer ?s1 = None" using assms(3) by (simp add: timer_advance)
  have w1: "writes ?s1 = []" using assms(3,4) by (simp add: writes_advance)
  have n1: "now ?s1 = 0" using assms(2) by simp
  have t2: "timer ?s2 = (if hasContent d0 then Some (30, d0) else None)" using n1 by simp
  have w3: "writes ?s3 = []" using t2 w1 by (simp add: writes_advance)
  have n3: "now ?s3 = 10" using n1 by simp
  have s3: "slot ?s3 = slot st" using t2 t1 assms(3) by (simp add: slot_advance)
  show "timer st4 = Some (40, d1)" unfolding e using assms(1) n3 by simp
  show "writes st4 = []" unfolding e using w3 by simp
  show "slot st4 = slot st" unfolding e using s3 by simp
  show "accepts st4 = accepts st" unfolding e by simp
qed

lemma scenario_state_empty:
  fixes d0 d1 :: draft and st :: autosave
  assumes "\<not> hasContent d1" "now st = 0" "timer st = None" "writes st = []"
  defines "st4 \<equiv> steps 30 [Tick 0, Render d0, Tick 10, Render d1] st"
  shows "timer st4 = None" "writes st4 = []" "slot st4 = slot st"
proof -
  let ?s1 = "advance 0 st"
  let ?s2 = "useAutoSaveDraft d0 30 ?s1"
  let ?s3 = "advance 10 ?s2"
  have e: "st4 = useAutoSaveDraft d1 30 ?s3" by (simp add: st4_def steps_def)
  have t1: "timer ?s1 = None" using assms(3) by (simp add: timer_advance)
  have w1: "writes ?s1 = []" using assms(3,4) by (simp add: writes_advance)
  have n1: "now ?s1 = 0" using assms(2) by simp
  have t2: "timer ?s2 = (if hasContent d0 then Some (30, d0) else None)" using n1 by simp
  have w3: "writes ?s3 = []" using t2 w1 by (simp add: writes_advance)
  have s3: "slot ?s3 = slot st" using t2 t1 assms(3) by (simp add: slot_advance)
  show "timer st4 = None" unfolding e using assms(1) by simp
  show "writes st4 = []" unfolding e using w3 by simp
  show "slot st4 = slot st" unfolding e using s3 by simp
qed

text \<open>
  Claim C5 (as amended). The hook runs with delay 30 after renders at times 0 and 10, and
  there is no further render (every render of \<open>App\<close> builds a new draft object, so every
  render restarts the timer). Observed at any time \<open>T\<close>. When the draft of the render at
  time 10 has content: before 40 the hook has called \<open>setItem\<close> not at all and the slot is
  as it was; from 40 on it has called it exactly once, at time 40, with the draft of the
  render at time 10, which is then in the slot if the store accepted it; the timer of the
  first render never fires. When the draft of the render at time 10 is empty in all four
  fields: the timer of the first render is cleared all the same, the hook has called
  \<open>setItem\<close> not at all, whatever \<open>T\<close> is, and the slot is as it was.
\<close>

theorem debounce_scenario:
  assumes "now st = 0" and "timer st = None" and "writes st = []"
  shows "(hasContent d1 \<longrightarrow>
            writes (scenario 30 T d0 d1 st) = (if T < 40 then [] else [(40, d1)])
          \<and> (T < 40 \<longrightarrow> slot (scenario 30 T d0 d1 st) = slot st)
          \<and> (40 \<le> T \<and> accepts st d1 \<longrightarrow> slot (scenario 30 T d0 d1 st) = Some d1))
    \<and> (\<not> hasContent d1 \<longrightarrow>
            writes (scenario 30 T d0 d1 st) = [] \<and> slot (scenario 30 T d0 d1 st) = slot st)"
proof (intro conjI impI)
  let ?st4 = "steps 30 [Tick 0, Render d0, Tick 10, Render d1] st"
  have e: "scenario 30 T d0 d1 st = advance T ?st4" by (simp add: scenario_def steps_def)
  {
    assume h: "hasContent d1"
    note s4 = scenario_state [OF h assms, of d0]
    show "writes (scenario 30 T d0 d1 st) = (if T < 40 then [] else [(40, d1)])"
      unfolding e using s4(1,2) by (simp add: writes_advance)
    {
      assume "T < 40"
      then show "slot (scenario 30 T d0 d1 st) = slot st"
        unfolding e using s4(1,3) by (simp add: slot_advance)
    }
    {
      assume "40 \<le> T \<and> accepts st d1"
      then show "slot (scenario 30 T d0 d1 st) = Some d1"
        unfolding e using s4(1,4) by (simp add: slot_advance)
    }
  }
  {
    assume h: "\<not> hasContent d1"
    note s4 = scenario_state_empty [OF h assms, of d0]
    show "writes (scenario 30 T d0 d1 st) = []"
      unfolding e using s4(1,2) by (simp add: writes_advance)
    show "slot (scenario 30 T d0 d1 st) = slot st"
      unfolding e using s4(1,3) by (simp add: slot_advance)
  }
qed

lemma hasContent_titled: "hasContent (titled ''a'')"
  by (simp add: hasContent_def titled_def trim_def is_space_def)

lemma not_hasContent_empty: "\<not> hasContent empty_draft"
  by (simp add: hasContent_def empty_draft_def)

lemma hasContent_titled_ab: "hasContent (titled ''ab'')"
  by (simp add: hasContent_def titled_def trim_def is_space_def)

theorem debounce_scenario_witness:
  "now fresh = 0 \<and> timer fresh = None \<and> writes fresh = []
   \<and> hasContent (titled ''a'') \<and> accepts fresh (titled ''a'')
   \<and> writes (scenario 30 39 empty_draft (titled ''a'') fresh) = []
   \<and> slot (scenario 30 39 empty_draft (titled ''a'') fresh) = None
   \<and> writes (scenario 30 40 empty_draft (titled ''a'') fresh) = [(40, titled ''a'')]
   \<and> slot (scenario 30 40 empty_draft (titled ''a'') fresh) = Some (titled ''a'')
   \<and> \<not> hasContent empty_draft
   \<and> writes (scenario 30 40 (titled ''a'') empty_draft fresh) = []
   \<and> slot (scenario 30 40 (titled ''a'') empty_draft fresh) = None"
proof -
  have f: "now fresh = 0" "timer fresh = None" "writes fresh = []" "accepts fresh (titled ''a'')"
    "slot fresh = None"
    by (simp_all add: fresh_def)
  note T = debounce_scenario [OF f(1,2,3)]
  from T [of "titled ''a''" 39 empty_draft] hasContent_titled f(5)
  have a: "writes (scenario 30 39 empty_draft (titled ''a'') fresh) = []"
    "slot (scenario 30 39 empty_draft (titled ''a'') fresh) = None"
    by simp_all
  from T [of "titled ''a''" 40 empty_draft] hasContent_titled f(4)
  have b: "writes (scenario 30 40 empty_draft (titled ''a'') fresh) = [(40, titled ''a'')]"
    "slot (scenario 30 40 empty_draft (titled ''a'') fresh) = Some (titled ''a'')"
    by simp_all
  from T [of empty_draft 40 "titled ''a''"] not_hasContent_empty f(5)
  have c: "writes (scenario 30 40 (titled ''a'') empty_draft fresh) = []"
    "slot (scenario 30 40 (titled ''a'') empty_draft fresh) = None"
    by simp_all
  from hasContent_titled not_hasContent_empty f(1-4) a b c show ?thesis by (intro conjI)
qed

text \<open>
  The claim as stated fails in two ways. When the draft of the render at time 10 is empty
  in all four fields (the title typed at time 0 deleted again), the guard returns before a
  timer is started, the earlier timer is already cleared, and no write occurs at time 40
  or later. And when \<open>App\<close> renders once more at time 20 with the draft unchanged (a
  render for another reason, such as the opening of a dialog), the draft object is a new
  one, the effect runs again and restarts the timer: nothing is written at time 40, and
  the write comes at time 50.
\<close>

theorem debounce_empty_draft_counterexample:
  "hasContent (titled ''a'')
   \<and> writes (scenario 30 40 (titled ''a'') empty_draft fresh) = []
   \<and> writes (scenario 30 1000 (titled ''a'') empty_draft fresh) = []
   \<and> slot (scenario 30 1000 (titled ''a'') empty_draft fresh) = None
   \<and> hasContent (titled ''ab'')
   \<and> writes (steps 30 [Tick 0, Render (titled ''a''), Tick 10, Render (titled ''ab''),
                        Tick 20, Render (titled ''ab''), Tick 40] fresh) = []
   \<and> writes (steps 30 [Tick 0, Render (titled ''a''), Tick 10, Render (titled ''ab''),
                        Tick 20, Render (titled ''ab''), Tick 50] fresh) = [(50, titled ''ab'')]"
proof -
  let ?s1 = "advance 0 fresh"
  let ?s2 = "useAutoSaveDraft (titled ''a'') 30 ?s1"
  let ?s3 = "advance 10 ?s2"
  let ?s4 = "useAutoSaveDraft empty_draft 30 ?s3"
  have e: "scenario 30 T (titled ''a'') empty_draft fresh = advance T ?s4" for T
    by (simp add: scenario_def steps_def)
  have f: "now fresh = 0" "timer fresh = None" "writes fresh = []" "slot fresh = None"
    by (simp_all add: fresh_def)
  have t1: "timer ?s1 = None" using f by (simp add: timer_advance)
  have w1: "writes ?s1 = []" using f by (simp add: writes_advance)
  have l1: "slot ?s1 = None" using f by (simp add: slot_advance)
  have n1: "now ?s1 = 0" using f by simp
  have t2: "timer ?s2 = Some (30, titled ''a'')" using n1 hasContent_titled by simp
  have w3: "writes ?s3 = []" using t2 w1 by (simp add: writes_advance)
  have l3: "slot ?s3 = None" using t2 l1 by (simp add: slot_advance)
  have n3: "now ?s3 = 10" using n1 by simp
  have t4: "timer ?s4 = None" using not_hasContent_empty by simp
  have w4: "writes ?s4 = []" using w3 by simp
  have l4: "slot ?s4 = None" using l3 by simp
  have 1: "writes (advance T ?s4) = []" for T using t4 w4 by (simp add: writes_advance)
  have 2: "slot (advance T ?s4) = None" for T using t4 l4 by (simp add: slot_advance)
  let ?r4 = "useAutoSaveDraft (titled ''ab'') 30 ?s3"
  let ?r5 = "advance 20 ?r4"
  let ?r6 = "useAutoSaveDraft (titled ''ab'') 30 ?r5"
  have g: "steps 30 [Tick 0, Render (titled ''a''), Tick 10, Render (titled ''ab''),
                     Tick 20, Render (titled ''ab''), Tick T] fresh = advance T ?r6" for T
    by (simp add: steps_def)
  have u4: "timer ?r4 = Some (40, titled ''ab'')" using n3 hasContent_titled_ab by simp
  have v4: "writes ?r4 = []" using w3 by simp
  have v5: "writes ?r5 = []" using u4 v4 by (simp add: writes_advance)
  have m5: "now ?r5 = 20" using n3 by simp
  have u6: "timer ?r6 = Some (50, titled ''ab'')" using m5 hasContent_titled_ab by simp
  have v6: "writes ?r6 = []" using v5 by simp
  have 3: "writes (advance 40 ?r6) = []" using u6 v6 by (simp add: writes_advance)
  have 4: "writes (advance 50 ?r6) = [(50, titled ''ab'')]" using u6 v6 by (simp add: writes_advance)
  show ?thesis
    unfolding e g using hasContent_titled hasContent_titled_ab 1 2 3 4 by (intro conjI)
qed


subsection \<open>No empty draft is written by the hook\<close>






lemma persist_now_simps [simp]:
  "writes (persist_now d st) = writes st @ [(now st, d)]"
  "now (persist_now d st) = now st"
  "timer (persist_now d st) = timer st"
  "slot (persist_now d st) = (if accepts st d then Some d else slot st)"
  by (cases "accepts st d"; simp add: persist_now_def setItem_def)+

lemma accepts_persist_now [simp]: "accepts (persist_now d st) = accepts st"
  by (cases "accepts st d"; simp add: persist_now_def setItem_def)


subsection \<open>The write on a change of the image list\<close>

text \<open>
  Claim C6. A change of the image list renders \<open>App\<close> with the new list; the effect that
  depends on \<open>images\<close> then calls \<open>setItem\<close> with the full draft of that render at the current
  time, without any delay, and the draft is in the slot if the store accepted it. Whatever
  timer was pending for earlier changes is replaced: the only timer pending afterwards is
  due 30000 time units later, so the write precedes every debounced write that is still to
  come.
\<close>

theorem image_change_writes_at_once:
  "current (setImages imgs s) = (current s)\<lparr>images := imgs\<rparr>
   \<and> writes (persistence (setImages imgs s))
       = writes (persistence s) @ [(now (persistence s), (current s)\<lparr>images := imgs\<rparr>)]
   \<and> now (persistence (setImages imgs s)) = now (persistence s)
   \<and> (accepts (persistence s) ((current s)\<lparr>images := imgs\<rparr>)
        \<longrightarrow> slot (persistence (setImages imgs s)) = Some ((current s)\<lparr>images := imgs\<rparr>))
   \<and> (\<forall>due d. timer (persistence (setImages imgs s)) = Some (due, d)
        \<longrightarrow> due = now (persistence s) + 30000 \<and> now (persistence s) < due)"
  by (simp add: setImages_def Let_def)


theorem image_change_writes_at_once_witness:
  "timer (persistence typing_session) = Some (30000, titled ''a'')
   \<and> now (persistence typing_session) = 10
   \<and> accepts (persistence typing_session) with_photo
   \<and> writes (persistence (setImages [photo] typing_session)) = [(10, with_photo)]
   \<and> slot (persistence (setImages [photo] typing_session)) = Some with_photo"
proof -
  let ?s0 = "\<lparr>current = empty_draft, persistence = fresh\<rparr>"
  have c1: "current (setTitle ''a'' ?s0) = titled ''a''"
    by (simp add: setTitle_def empty_draft_def titled_def Let_def)
  have p1: "persistence (setTitle ''a'' ?s0) = useAutoSaveDraft (titled ''a'') 30000 fresh"
    by (simp add: setTitle_def empty_draft_def titled_def Let_def)
  have f: "timer fresh = None" "writes fresh = []" "now fresh = 0" "accepts fresh with_photo"
    by (simp_all add: fresh_def)
  have c: "current typing_session = titled ''a''"
    using c1 by (simp add: typing_session_def elapse_def)
  have p: "persistence typing_session = advance 10 (useAutoSaveDraft (titled ''a'') 30000 fresh)"
    using p1 by (simp add: typing_session_def elapse_def)
  have t: "timer (persistence typing_session) = Some (30000, titled ''a'')"
    unfolding p using f hasContent_titled by (simp add: timer_advance)
  have n: "now (persistence typing_session) = 10" unfolding p using f by simp
  have w: "writes (persistence typing_session) = []"
    unfolding p using f hasContent_titled by (simp add: writes_advance)
  have a: "accepts (persistence typing_session) with_photo" unfolding p using f by simp
  have d: "(current typing_session)\<lparr>images := [photo]\<rparr> = with_photo"
    unfolding c by (simp add: titled_def with_photo_def)
  note T = image_change_writes_at_once [of "[photo]" typing_session]
  from T have "writes (persistence (setImages [photo] typing_session))
       = writes (persistence typing_session)
         @ [(now (persistence typing_session), (current typing_session)\<lparr>images := [photo]\<rparr>)]"
    by (elim conjE)
  then have r1: "writes (persistence (setImages [photo] typing_session)) = [(10, with_photo)]"
    unfolding d n w by simp
  from T have "accepts (persistence typing_session) ((current typing_session)\<lparr>images := [photo]\<rparr>)
        \<longrightarrow> slot (persistence (setImages [photo] typing_session))
            = Some ((current typing_session)\<lparr>images := [photo]\<rparr>)"
    by (elim conjE)
  then have r2: "slot (persistence (setImages [photo] typing_session)) = Some with_photo"
    unfolding d using a by simp
  from t n a r1 r2 show ?thesis by (intro conjI)
qed

section \<open>Idempotence of the content normalisation\<close>

subsection \<open>Character classes\<close>

lemma lit_length: "lit ps s = Some r \<Longrightarrow> length s = length ps + length r"
  by (induction ps s rule: lit.induct) (simp_all split: if_splits)

lemma lit_append: "lit ps s = Some r \<Longrightarrow> lit ps (s @ q) = Some (r @ q)"
  by (induction ps s rule: lit.induct) (simp_all split: if_splits)

lemma lit_split: "lit ps s = Some r \<Longrightarrow> \<exists>u. s = u @ r \<and> length u = length ps"
proof (induction ps s rule: lit.induct)
  case (1 s)
  then show ?case by simp
next
  case (2 p ps)
  then show ?case by simp
next
  case (3 p ps c cs)
  then have "p c" and "lit ps cs = Some r" by (simp_all split: if_splits)
  with 3 obtain u where "cs = u @ r" "length u = length ps" by blast
  then have "c # cs = (c # u) @ r \<and> length (c # u) = length (p # ps)" by simp
  then show ?case by blast
qed

lemma not_space_lt [simp]: "\<not> is_space CHR ''<''"
  by (simp add: is_space_def)

subsection \<open>Global replacement\<close>

lemma tagmD:
  assumes "tagm m" "m s = Some r"
  shows "length r < length s" and "\<exists>t. s = CHR ''<'' # t"
  using assms by (simp_all add: tagm_def)

lemma replace_copy: "m (c # cs) = None \<Longrightarrow> replace_all m rep (c # cs) = c # replace_all m rep cs"
  by simp

lemma replace_match_Cons:
  "m (c # cs) = Some r \<Longrightarrow> length r < length (c # cs) \<Longrightarrow>
   replace_all m rep (c # cs) = rep @ replace_all m rep r"
  by simp

declare replace_all.simps(2) [simp del]

lemma replace_match:
  assumes "tagm m" "m s = Some r"
  shows "replace_all m rep s = rep @ replace_all m rep r"
proof -
  from tagmD [OF assms] obtain t where s: "s = CHR ''<'' # t" and l: "length r < length s" by blast
  show ?thesis using assms(2) l unfolding s by (simp add: replace_match_Cons)
qed

lemma replace_other:
  assumes "tagm m" "c \<noteq> CHR ''<''"
  shows "replace_all m rep (c # cs) = c # replace_all m rep cs"
proof (cases "m (c # cs)")
  case None
  then show ?thesis by (simp add: replace_copy)
next
  case (Some r)
  from tagmD(2) [OF assms(1) Some] assms(2) show ?thesis by simp
qed

lemma replace_lt:
  assumes "tagm m"
  shows "\<exists>x. replace_all m (CHR ''<'' # rep) (CHR ''<'' # cs) = CHR ''<'' # x"
proof (cases "m (CHR ''<'' # cs)")
  case None
  then show ?thesis by (simp add: replace_copy)
next
  case (Some r)
  from replace_match [OF assms Some] show ?thesis by simp
qed

lemma replace_eq_Nil:
  assumes "tagm m" "rep \<noteq> []"
  shows "replace_all m rep s = [] \<longleftrightarrow> s = []"
proof (cases s)
  case Nil
  then show ?thesis by simp
next
  case (Cons c cs)
  show ?thesis
  proof (cases "m s")
    case None
    with Cons show ?thesis by (simp add: replace_copy)
  next
    case (Some r)
    from replace_match [OF assms(1) Some] assms(2) Cons show ?thesis by simp
  qed
qed

lemma replace_dropWhile:
  assumes "tagm m"
  shows "dropWhile is_space (replace_all m (CHR ''<'' # rep) s)
         = replace_all m (CHR ''<'' # rep) (dropWhile is_space s)"
proof (induction s)
  case Nil
  then show ?case by simp
next
  case (Cons c cs)
  show ?case
  proof (cases "is_space c")
    case True
    then have "c \<noteq> CHR ''<''" by auto
    with True Cons show ?thesis by (simp add: replace_other [OF assms])
  next
    case False
    show ?thesis
    proof (cases "c = CHR ''<''")
      case True
      from replace_lt [OF assms, of rep cs] obtain x
        where "replace_all m (CHR ''<'' # rep) (CHR ''<'' # cs) = CHR ''<'' # x" by blast
      with True show ?thesis by simp
    next
      case c: False
      with False show ?thesis by (simp add: replace_other [OF assms])
    qed
  qed
qed

lemma replace_lit:
  assumes "tagm m" "list_all (\<lambda>q. \<not> q CHR ''<'') ps"
  shows "lit ps (replace_all m (CHR ''<'' # rep) s) = map_option (replace_all m (CHR ''<'' # rep)) (lit ps s)"
  using assms(2)
proof (induction ps s rule: lit.induct)
  case (1 s)
  then show ?case by simp
next
  case (2 p ps)
  then show ?case by simp
next
  case (3 p ps c cs)
  show ?case
  proof (cases "c = CHR ''<''")
    case True
    from replace_lt [OF assms(1), of rep cs] obtain x
      where "replace_all m (CHR ''<'' # rep) (CHR ''<'' # cs) = CHR ''<'' # x" by blast
    with True 3(2) show ?thesis by simp
  next
    case False
    show ?thesis
    proof (cases "p c")
      case True
      from 3(2) have "list_all (\<lambda>q. \<not> q CHR ''<'') ps" by simp
      with 3(1) [OF True] True False show ?thesis by (simp add: replace_other [OF assms(1)])
    next
      case f: False
      with False show ?thesis by (simp add: replace_other [OF assms(1)])
    qed
  qed
qed

lemma replace_lit_head:
  assumes "tagm m" "list_all (\<lambda>q. \<not> q CHR ''<'') ps" "m s = None"
  shows "lit (q # ps) (replace_all m (CHR ''<'' # rep) s)
         = map_option (replace_all m (CHR ''<'' # rep)) (lit (q # ps) s)"
proof (cases s)
  case Nil
  then show ?thesis by simp
next
  case (Cons c cs)
  with assms(3) show ?thesis by (simp add: replace_copy replace_lit [OF assms(1,2)])
qed

lemma replace_opt_slash:
  assumes "tagm m"
  shows "opt_slash (replace_all m (CHR ''<'' # rep) s) = replace_all m (CHR ''<'' # rep) (opt_slash s)"
proof (cases s)
  case Nil
  then show ?thesis by (simp add: opt_slash_def)
next
  case (Cons c cs)
  show ?thesis
  proof (cases "c = CHR ''<''")
    case True
    from replace_lt [OF assms, of rep cs] obtain x
      where "replace_all m (CHR ''<'' # rep) (CHR ''<'' # cs) = CHR ''<'' # x" by blast
    with True Cons show ?thesis by (simp add: opt_slash_def)
  next
    case False
    with Cons show ?thesis by (simp add: opt_slash_def replace_other [OF assms])
  qed
qed

subsection \<open>The tag matchers\<close>

lemma open_p_append: "open_p s = Some r \<Longrightarrow> open_p (s @ q) = Some (r @ q)"
  unfolding open_p_def by (rule lit_append)

lemma close_p_append: "close_p s = Some r \<Longrightarrow> close_p (s @ q) = Some (r @ q)"
  unfolding close_p_def by (rule lit_append)

lemma nbsp_append: "nbsp s = Some r \<Longrightarrow> nbsp (s @ q) = Some (r @ q)"
  unfolding nbsp_def by (rule lit_append)

lemma open_p_length: "open_p s = Some r \<Longrightarrow> length s = 3 + length r"
  unfolding open_p_def by (drule lit_length) simp

lemma close_p_length: "close_p s = Some r \<Longrightarrow> length s = 4 + length r"
  unfolding close_p_def by (drule lit_length) simp

lemma nbsp_length: "nbsp s = Some r \<Longrightarrow> length s = 6 + length r"
  unfolding nbsp_def by (drule lit_length) simp

lemma open_p_lt: "open_p s = Some r \<Longrightarrow> \<exists>t. s = CHR ''<'' # t"
  by (cases s) (simp_all add: open_p_def ch_def split: if_splits)

lemma close_p_lt: "close_p s = Some r \<Longrightarrow> \<exists>t. s = CHR ''<'' # CHR ''/'' # t"
  by (cases s; cases "tl s") (simp_all add: close_p_def ch_def split: if_splits)

lemma nbsp_amp: "nbsp s = Some r \<Longrightarrow> \<exists>t. s = CHR ''&'' # t"
  by (cases s) (simp_all add: nbsp_def ch_def split: if_splits)

lemma br_prefix:
  "br s = Some r \<Longrightarrow> \<exists>b t. s = CHR ''<'' # b # t \<and> (b = CHR ''b'' \<or> b = CHR ''B'')"
  by (cases s; cases "tl s")
     (simp_all add: br_def ch_def either_def split: option.splits if_splits)

lemma length_opt_slash: "length (opt_slash s) \<le> length s"
  by (simp add: opt_slash_def split: list.splits)

lemma br_length: "br s = Some r \<Longrightarrow> length r + 4 \<le> length s"
proof -
  assume "br s = Some r"
  then obtain r1 where r1: "lit [ch CHR ''<'', either CHR ''b'' CHR ''B'', either CHR ''r'' CHR ''R''] s = Some r1"
    and r: "lit [ch CHR ''>''] (opt_slash (dropWhile is_space r1)) = Some r"
    by (simp add: br_def split: option.splits)
  have "length (opt_slash (dropWhile is_space r1)) \<le> length (dropWhile is_space r1)"
    by (rule length_opt_slash)
  also have "\<dots> \<le> length r1" by (rule length_dropWhile_le)
  finally show ?thesis using lit_length [OF r] lit_length [OF r1] by simp
qed

lemma opt_slash_append: "s \<noteq> [] \<Longrightarrow> opt_slash (s @ q) = opt_slash s @ q"
  by (cases s) (simp_all add: opt_slash_def)

lemma br_append: "br s = Some r \<Longrightarrow> br (s @ q) = Some (r @ q)"
proof -
  assume "br s = Some r"
  then obtain r1 where r1: "lit [ch CHR ''<'', either CHR ''b'' CHR ''B'', either CHR ''r'' CHR ''R''] s = Some r1"
    and r: "lit [ch CHR ''>''] (opt_slash (dropWhile is_space r1)) = Some r"
    by (simp add: br_def split: option.splits)
  from r have o: "opt_slash (dropWhile is_space r1) \<noteq> []" by (cases "opt_slash (dropWhile is_space r1)") simp_all
  then have d: "dropWhile is_space r1 \<noteq> []"
    by (cases "dropWhile is_space r1") (simp_all add: opt_slash_def)
  then have "dropWhile is_space (r1 @ q) = dropWhile is_space r1 @ q"
    by (metis dropWhile_append1 dropWhile_eq_Nil_conv)
  then have "opt_slash (dropWhile is_space (r1 @ q)) = opt_slash (dropWhile is_space r1) @ q"
    using d by (simp add: opt_slash_append)
  then show ?thesis
    using lit_append [OF r1, of q] lit_append [OF r, of q] by (simp add: br_def)
qed

lemma open_p_para [simp]: "open_p (CHR ''<'' # CHR ''p'' # CHR ''>'' # x) = Some x"
  by (simp add: open_p_def ch_def either_def)

lemma close_p_para [simp]: "close_p (CHR ''<'' # CHR ''/'' # CHR ''p'' # CHR ''>'' # x) = Some x"
  by (simp add: close_p_def ch_def either_def)

lemma br_canonical [simp]: "br (CHR ''<'' # CHR ''b'' # CHR ''r'' # CHR ''/'' # CHR ''>'' # x) = Some x"
  by (simp add: br_def ch_def either_def opt_slash_def is_space_def)

lemma open_p_not:
  "c \<noteq> CHR ''<'' \<Longrightarrow> open_p (c # cs) = None"
  "b \<noteq> CHR ''p'' \<Longrightarrow> b \<noteq> CHR ''P'' \<Longrightarrow> open_p (c # b # cs) = None"
  "open_p [] = None"
  by (simp_all add: open_p_def ch_def either_def)

lemma close_p_not:
  "c \<noteq> CHR ''<'' \<Longrightarrow> close_p (c # cs) = None"
  "b \<noteq> CHR ''/'' \<Longrightarrow> close_p (c # b # cs) = None"
  "close_p [] = None"
  by (simp_all add: close_p_def ch_def either_def)

lemma nbsp_not:
  "c \<noteq> CHR ''&'' \<Longrightarrow> nbsp (c # cs) = None"
  "nbsp [] = None"
  by (simp_all add: nbsp_def ch_def)

lemma br_not:
  "c \<noteq> CHR ''<'' \<Longrightarrow> br (c # cs) = None"
  "b \<noteq> CHR ''b'' \<Longrightarrow> b \<noteq> CHR ''B'' \<Longrightarrow> br (c # b # cs) = None"
  "br [] = None"
  by (simp_all add: br_def ch_def either_def)

subsection \<open>The repetition of fillers\<close>

lemma fill_space: "is_space c \<Longrightarrow> fill (c # cs) = fill cs"
  by simp

lemma fill_nbsp: "nbsp s = Some r \<Longrightarrow> fill s = fill r"
proof -
  assume a: "nbsp s = Some r"
  from nbsp_amp [OF a] obtain t where s: "s = CHR ''&'' # t" by blast
  have "\<not> is_space CHR ''&''" by (simp add: is_space_def)
  with a show ?thesis unfolding s by simp
qed

lemma fill_br: "br s = Some r \<Longrightarrow> fill s = fill r"
proof -
  assume a: "br s = Some r"
  from br_prefix [OF a] obtain t where s: "s = CHR ''<'' # t" by blast
  have "nbsp (CHR ''<'' # t) = None" by (simp add: nbsp_not)
  with a show ?thesis unfolding s by simp
qed

lemma fill_stop:
  "\<not> is_space c \<Longrightarrow> nbsp (c # cs) = None \<Longrightarrow> br (c # cs) = None \<Longrightarrow> fill (c # cs) = c # cs"
  by simp

declare fill.simps(2) [simp del]

lemma fill_cases:
  obtains (nil) "s = []"
  | (space) c cs where "s = c # cs" "is_space c"
  | (nbsp) r where "nbsp s = Some r"
  | (br) r where "br s = Some r"
  | (stop) c cs where "s = c # cs" "\<not> is_space c" "nbsp s = None" "br s = None"
proof (cases s)
  case Nil
  then show ?thesis by (rule nil)
next
  case (Cons c cs)
  show ?thesis
  proof (cases "is_space c")
    case True
    with Cons show ?thesis by (rule space)
  next
    case False
    show ?thesis
    proof (cases "nbsp s")
      case (Some r)
      then show ?thesis by (rule nbsp)
    next
      case None
      show ?thesis
      proof (cases "br s")
        case (Some r)
        then show ?thesis by (rule br)
      next
        case n: None
        from Cons False None n show ?thesis by (rule stop)
      qed
    qed
  qed
qed

lemma fill_length: "length (fill s) \<le> length s"
proof (induction s rule: length_induct)
  case (1 s)
  show ?case
  proof (cases s rule: fill_cases)
    case nil
    then show ?thesis by simp
  next
    case (space c cs)
    with 1 have "length (fill cs) \<le> length cs" by simp
    with space show ?thesis by (simp add: fill_space)
  next
    case (nbsp r)
    from nbsp_length [OF nbsp] 1 have "length (fill r) \<le> length r" by simp
    with nbsp_length [OF nbsp] show ?thesis by (simp add: fill_nbsp [OF nbsp])
  next
    case (br r)
    from br_length [OF br] 1 have "length (fill r) \<le> length r" by simp
    with br_length [OF br] show ?thesis by (simp add: fill_br [OF br])
  next
    case (stop c cs)
    then show ?thesis by (simp add: fill_stop)
  qed
qed

lemma fill_close_append:
  "close_p (fill s) = Some z \<Longrightarrow> fill (s @ q) = fill s @ q"
proof (induction s rule: length_induct)
  case (1 s)
  show ?case
  proof (cases s rule: fill_cases)
    case nil
    with 1(2) show ?thesis by (simp add: close_p_not)
  next
    case (space c cs)
    with 1 have "fill (cs @ q) = fill cs @ q" by (simp add: fill_space)
    with space show ?thesis by (simp add: fill_space)
  next
    case (nbsp r)
    from nbsp_length [OF nbsp] 1 have "fill (r @ q) = fill r @ q" by (simp add: fill_nbsp [OF nbsp])
    then show ?thesis by (simp add: fill_nbsp [OF nbsp] fill_nbsp [OF nbsp_append [OF nbsp]])
  next
    case (br r)
    from br_length [OF br] 1 have "fill (r @ q) = fill r @ q" by (simp add: fill_br [OF br])
    then show ?thesis by (simp add: fill_br [OF br] fill_br [OF br_append [OF br]])
  next
    case (stop c cs)
    then have f: "fill s = s" by (simp add: fill_stop)
    with 1(2) have "close_p s = Some z" by simp
    from close_p_lt [OF this] obtain t where t: "s = CHR ''<'' # CHR ''/'' # t" by blast
    have "fill (CHR ''<'' # CHR ''/'' # t @ q) = CHR ''<'' # CHR ''/'' # t @ q"
      by (rule fill_stop) (simp_all add: nbsp_not br_not)
    with f t show ?thesis by simp
  qed
qed

subsection \<open>Greedy repetition\<close>

lemma reps_None: "m s = None \<Longrightarrow> reps m s = (0, s)"
  by simp

lemma reps_Some:
  "m s = Some r \<Longrightarrow> length r < length s \<Longrightarrow>
   reps m s = (Suc (fst (reps m r)), snd (reps m r))"
  by (simp add: case_prod_beta)

declare reps.simps [simp del]

lemma shrinksD: "shrinks m \<Longrightarrow> m s = Some r \<Longrightarrow> length r < length s"
  by (simp add: shrinks_def)

lemma tagm_shrinks: "tagm m \<Longrightarrow> shrinks m"
  by (simp add: tagm_def shrinks_def)

lemma reps_step:
  assumes "shrinks m" "m s = Some r"
  shows "reps m s = (Suc (fst (reps m r)), snd (reps m r))"
  using assms(2) shrinksD [OF assms] by (rule reps_Some)

lemma reps_length:
  assumes "shrinks m"
  shows "length (snd (reps m s)) \<le> length s"
proof (induction s rule: length_induct)
  case (1 s)
  show ?case
  proof (cases "m s")
    case None
    then show ?thesis by (simp add: reps_None)
  next
    case (Some r)
    from shrinksD [OF assms Some] 1 have "length (snd (reps m r)) \<le> length r" by simp
    with shrinksD [OF assms Some] show ?thesis by (simp add: reps_step [OF assms Some])
  qed
qed

lemma reps_stop:
  assumes "shrinks m"
  shows "m (snd (reps m s)) = None"
proof (induction s rule: length_induct)
  case (1 s)
  show ?case
  proof (cases "m s")
    case None
    then show ?thesis by (simp add: reps_None)
  next
    case (Some r)
    from shrinksD [OF assms Some] 1 have "m (snd (reps m r)) = None" by simp
    then show ?thesis by (simp add: reps_step [OF assms Some])
  qed
qed

lemma reps_zero: "shrinks m \<Longrightarrow> fst (reps m s) = 0 \<longleftrightarrow> m s = None"
  by (cases "m s") (simp_all add: reps_None reps_step)

lemma reps_map:
  assumes "shrinks m" and "\<And>s. m (g s) = map_option g (m s)"
  shows "reps m (g s) = (fst (reps m s), g (snd (reps m s)))"
proof (induction s rule: length_induct)
  case (1 s)
  show ?case
  proof (cases "m s")
    case None
    then have "m (g s) = None" by (simp add: assms(2))
    with None show ?thesis by (simp add: reps_None)
  next
    case (Some r)
    then have g: "m (g s) = Some (g r)" by (simp add: assms(2))
    from shrinksD [OF assms(1) Some] 1 have "reps m (g r) = (fst (reps m r), g (snd (reps m r)))"
      by simp
    then show ?thesis by (simp add: reps_step [OF assms(1) Some] reps_step [OF assms(1) g])
  qed
qed

lemma two_or_more_Some:
  assumes "shrinks m" "two_or_more m s = Some r"
  shows "\<exists>r1 r2. m s = Some r1 \<and> m r1 = Some r2 \<and> r = snd (reps m r2) \<and> m r = None"
proof -
  from assms(2) have n: "2 \<le> fst (reps m s)" and r: "r = snd (reps m s)"
    by (simp_all add: two_or_more_def case_prod_beta split: if_splits)
  from n obtain r1 where r1: "m s = Some r1" by (cases "m s") (simp_all add: reps_None)
  from n have n1: "1 \<le> fst (reps m r1)" by (simp add: reps_step [OF assms(1) r1])
  then obtain r2 where r2: "m r1 = Some r2" by (cases "m r1") (simp_all add: reps_None)
  have "r = snd (reps m r2)"
    by (simp add: r reps_step [OF assms(1) r1] reps_step [OF assms(1) r2])
  moreover have "m r = None" unfolding r by (rule reps_stop [OF assms(1)])
  ultimately show ?thesis using r1 r2 by blast
qed

lemma two_or_more_None:
  assumes "shrinks m"
  shows "two_or_more m s = None \<longleftrightarrow> (m s = None \<or> (\<exists>r. m s = Some r \<and> m r = None))"
proof (cases "m s")
  case None
  then show ?thesis by (simp add: two_or_more_def reps_None)
next
  case (Some r)
  show ?thesis
  proof (cases "m r")
    case None
    with Some show ?thesis by (simp add: two_or_more_def reps_step [OF assms Some] reps_None)
  next
    case s2: (Some r2)
    with Some show ?thesis
      by (simp add: two_or_more_def reps_step [OF assms Some] reps_step [OF assms s2] case_prod_beta)
  qed
qed

lemma one_or_more_Some:
  assumes "shrinks m"
  shows "one_or_more m s = Some r \<longleftrightarrow> (\<exists>r1. m s = Some r1 \<and> r = snd (reps m r1))"
proof (cases "m s")
  case None
  then show ?thesis by (simp add: one_or_more_def reps_None)
next
  case (Some r1)
  then show ?thesis
    by (auto simp: one_or_more_def reps_step [OF assms Some] case_prod_beta)
qed

lemma one_or_more_None: "shrinks m \<Longrightarrow> one_or_more m s = None \<longleftrightarrow> m s = None"
  by (cases "m s") (simp_all add: one_or_more_def reps_None reps_step case_prod_beta)

lemma tagm_two_or_more:
  assumes "shrinks m" "\<And>s r. m s = Some r \<Longrightarrow> \<exists>t. s = CHR ''<'' # t"
  shows "tagm (two_or_more m)"
  unfolding tagm_def
proof (intro allI impI)
  fix s r assume a: "two_or_more m s = Some r"
  from two_or_more_Some [OF assms(1) a] obtain r1 r2
    where r: "m s = Some r1" "m r1 = Some r2" "r = snd (reps m r2)" by blast
  have "length r \<le> length r2" unfolding r(3) by (rule reps_length [OF assms(1)])
  with shrinksD [OF assms(1) r(1)] shrinksD [OF assms(1) r(2)] have "length r < length s" by simp
  with assms(2) [OF r(1)] show "length r < length s \<and> (\<exists>t. s = CHR ''<'' # t)" by simp
qed

subsection \<open>The three patterns that are replaced\<close>

lemma shrinks_unit_p: "shrinks unit_p"
  unfolding shrinks_def
proof (intro allI impI)
  fix s r assume "unit_p s = Some r"
  then obtain r1 r2 where r: "open_p s = Some r1" "close_p (dropWhile is_space r1) = Some r2"
    "r = dropWhile is_space r2"
    by (auto simp: unit_p_def split: option.splits)
  have "length r \<le> length r2" unfolding r(3) by (rule length_dropWhile_le)
  also have "\<dots> \<le> length (dropWhile is_space r1)" using close_p_length [OF r(2)] by simp
  also have "\<dots> \<le> length r1" by (rule length_dropWhile_le)
  finally show "length r < length s" using open_p_length [OF r(1)] by simp
qed

lemma shrinks_unit_br: "shrinks unit_br"
  unfolding shrinks_def
proof (intro allI impI)
  fix s r assume "unit_br s = Some r"
  then obtain r1 where r: "br s = Some r1" "r = dropWhile is_space r1"
    by (auto simp: unit_br_def split: option.splits)
  have "length r \<le> length r1" unfolding r(2) by (rule length_dropWhile_le)
  with br_length [OF r(1)] show "length r < length s" by simp
qed

lemma unit_p_open: "unit_p s = Some r \<Longrightarrow> \<exists>r1. open_p s = Some r1"
  by (simp add: unit_p_def split: option.splits)

lemma unit_br_br: "unit_br s = Some r \<Longrightarrow> \<exists>r1. br s = Some r1"
  by (simp add: unit_br_def split: option.splits)

lemma tagm_empty_p: "tagm empty_p"
  unfolding tagm_def
proof (intro allI impI)
  fix s r assume "empty_p s = Some r"
  then obtain r1 where r: "open_p s = Some r1" "close_p (fill r1) = Some r"
    by (auto simp: empty_p_def split: option.splits)
  have "length r < length (fill r1)" using close_p_length [OF r(2)] by simp
  also have "\<dots> \<le> length r1" by (rule fill_length)
  finally have "length r < length s" using open_p_length [OF r(1)] by simp
  with open_p_lt [OF r(1)] show "length r < length s \<and> (\<exists>t. s = CHR ''<'' # t)" by simp
qed

lemma tagm_units_p: "tagm (two_or_more unit_p)"
proof (rule tagm_two_or_more [OF shrinks_unit_p])
  fix s r assume "unit_p s = Some r"
  from unit_p_open [OF this] obtain r1 where "open_p s = Some r1" by blast
  then show "\<exists>t. s = CHR ''<'' # t" by (rule open_p_lt)
qed

lemma tagm_units_br: "tagm (two_or_more unit_br)"
proof (rule tagm_two_or_more [OF shrinks_unit_br])
  fix s r assume "unit_br s = Some r"
  from unit_br_br [OF this] obtain r1 where "br s = Some r1" by blast
  from br_prefix [OF this] show "\<exists>t. s = CHR ''<'' # t" by blast
qed

subsection \<open>Matching in a text after a replacement\<close>

lemma replace_open_p:
  assumes "tagm m" "m s = None"
  shows "open_p (replace_all m (CHR ''<'' # rep) s) = map_option (replace_all m (CHR ''<'' # rep)) (open_p s)"
  unfolding open_p_def using assms
  by (intro replace_lit_head) (simp_all add: ch_def either_def)

lemma replace_close_p:
  assumes "tagm m" "m s = None"
  shows "close_p (replace_all m (CHR ''<'' # rep) s) = map_option (replace_all m (CHR ''<'' # rep)) (close_p s)"
  unfolding close_p_def using assms
  by (intro replace_lit_head) (simp_all add: ch_def either_def)

lemma replace_nbsp:
  assumes "tagm m"
  shows "nbsp (replace_all m (CHR ''<'' # rep) s) = map_option (replace_all m (CHR ''<'' # rep)) (nbsp s)"
proof (cases "m s")
  case None
  show ?thesis unfolding nbsp_def using assms None
    by (intro replace_lit_head) (simp_all add: ch_def either_def)
next
  case (Some r)
  from tagmD(2) [OF assms Some] obtain t where "s = CHR ''<'' # t" by blast
  moreover from replace_lt [OF assms, of rep t] obtain x
    where "replace_all m (CHR ''<'' # rep) (CHR ''<'' # t) = CHR ''<'' # x" by blast
  ultimately show ?thesis by (simp add: nbsp_not)
qed

lemma replace_br:
  assumes "tagm m" "m s = None"
  shows "br (replace_all m (CHR ''<'' # rep) s) = map_option (replace_all m (CHR ''<'' # rep)) (br s)"
proof -
  let ?G = "replace_all m (CHR ''<'' # rep)"
  let ?ps = "[ch CHR ''<'', either CHR ''b'' CHR ''B'', either CHR ''r'' CHR ''R'']"
  have h: "lit ?ps (?G s) = map_option ?G (lit ?ps s)"
    using assms by (intro replace_lit_head) (simp_all add: ch_def either_def)
  show ?thesis
  proof (cases "lit ?ps s")
    case None
    with h show ?thesis by (simp add: br_def)
  next
    case (Some r)
    have "lit [ch CHR ''>''] (opt_slash (dropWhile is_space (?G r)))
        = map_option ?G (lit [ch CHR ''>''] (opt_slash (dropWhile is_space r)))"
      unfolding replace_dropWhile [OF assms(1)] replace_opt_slash [OF assms(1)]
      using assms(1) by (intro replace_lit) (simp_all add: ch_def)
    with h Some show ?thesis by (simp add: br_def)
  qed
qed

subsection \<open>The canonical texts\<close>

lemma open_p_shape:
  "open_p v = Some r \<Longrightarrow> \<exists>b. v = CHR ''<'' # b # CHR ''>'' # r \<and> (b = CHR ''p'' \<or> b = CHR ''P'')"
  by (cases v; cases "tl v"; cases "tl (tl v)")
     (simp_all add: open_p_def ch_def either_def split: if_splits)

lemma open_p_excludes:
  assumes "open_p v = Some r"
  shows "close_p v = None" "br v = None" "nbsp v = None" "fill v = v"
proof -
  from open_p_shape [OF assms] obtain b
    where v: "v = CHR ''<'' # b # CHR ''>'' # r" and b: "b = CHR ''p'' \<or> b = CHR ''P''" by blast
  from b have nb: "b \<noteq> CHR ''/''" "b \<noteq> CHR ''b''" "b \<noteq> CHR ''B''" by auto
  show c: "close_p v = None" unfolding v using nb by (simp add: close_p_not)
  show r: "br v = None" unfolding v using nb by (simp add: br_not)
  show n: "nbsp v = None" unfolding v by (simp add: nbsp_not)
  show "fill v = v" using r n unfolding v by (simp add: fill_stop)
qed

lemma br_excludes:
  assumes "br v = Some r"
  shows "open_p v = None" "close_p v = None" "nbsp v = None"
proof -
  from br_prefix [OF assms] obtain b t
    where v: "v = CHR ''<'' # b # t" and b: "b = CHR ''b'' \<or> b = CHR ''B''" by blast
  from b have nb: "b \<noteq> CHR ''/''" "b \<noteq> CHR ''p''" "b \<noteq> CHR ''P''" by auto
  show "open_p v = None" unfolding v using nb by (simp add: open_p_not)
  show "close_p v = None" unfolding v using nb by (simp add: close_p_not)
  show "nbsp v = None" unfolding v by (simp add: nbsp_not)
qed

lemma close_p_excludes:
  assumes "close_p v = Some r"
  shows "open_p v = None" "br v = None" "nbsp v = None" "fill v = v"
proof -
  from close_p_lt [OF assms] obtain t where v: "v = CHR ''<'' # CHR ''/'' # t" by blast
  show "open_p v = None" unfolding v by (simp add: open_p_not)
  show r: "br v = None" unfolding v by (simp add: br_not)
  show n: "nbsp v = None" unfolding v by (simp add: nbsp_not)
  show "fill v = v" using r n unfolding v by (simp add: fill_stop)
qed

lemma empty_p_para [simp]:
  "empty_p (CHR ''<'' # CHR ''p'' # CHR ''>'' # CHR ''<'' # CHR ''/'' # CHR ''p'' # CHR ''>'' # x) = Some x"
proof -
  have "fill (''</p>'' @ x) = ''</p>'' @ x"
    by (rule close_p_excludes(4) [of _ x]) simp
  then show ?thesis by (simp add: empty_p_def)
qed

lemma unit_p_para [simp]:
  "unit_p (CHR ''<'' # CHR ''p'' # CHR ''>'' # CHR ''<'' # CHR ''/'' # CHR ''p'' # CHR ''>'' # x) = Some (dropWhile is_space x)"
  by (simp add: unit_p_def)

lemma unit_br_canonical [simp]:
  "unit_br (CHR ''<'' # CHR ''b'' # CHR ''r'' # CHR ''/'' # CHR ''>'' # x) = Some (dropWhile is_space x)"
  by (simp add: unit_br_def)

lemma fill_canonical_br [simp]:
  "fill (CHR ''<'' # CHR ''b'' # CHR ''r'' # CHR ''/'' # CHR ''>'' # x) = fill x"
  by (rule fill_br) simp

lemma fill_dropWhile: "fill (dropWhile is_space x) = fill x"
  by (induction x) (simp_all add: fill_space)

subsection \<open>Replacements at an opening paragraph tag\<close>

lemma para_matcherD:
  assumes "para_matcher m"
  shows "tagm m" and "m s = Some r \<Longrightarrow> \<exists>r1. open_p s = Some r1"
  using assms by (auto simp: para_matcher_def)

lemma pm_close_p:
  assumes "para_matcher m"
  shows "close_p (replace_all m ''<p></p>'' v) = map_option (replace_all m ''<p></p>'') (close_p v)"
proof (cases "m v")
  case None
  with para_matcherD(1) [OF assms] show ?thesis by (rule replace_close_p)
next
  case (Some r)
  from para_matcherD(2) [OF assms Some] obtain r1 where "open_p v = Some r1" by blast
  then have "close_p v = None" by (rule open_p_excludes)
  moreover have "close_p (replace_all m ''<p></p>'' v) = None"
    by (simp add: replace_match [OF para_matcherD(1) [OF assms] Some] close_p_not)
  ultimately show ?thesis by simp
qed

lemma pm_br:
  assumes "para_matcher m"
  shows "br (replace_all m ''<p></p>'' v) = map_option (replace_all m ''<p></p>'') (br v)"
proof (cases "m v")
  case None
  with para_matcherD(1) [OF assms] show ?thesis by (rule replace_br)
next
  case (Some r)
  from para_matcherD(2) [OF assms Some] obtain r1 where "open_p v = Some r1" by blast
  then have "br v = None" by (rule open_p_excludes)
  moreover have "br (replace_all m ''<p></p>'' v) = None"
    by (simp add: replace_match [OF para_matcherD(1) [OF assms] Some] br_not)
  ultimately show ?thesis by simp
qed

lemma pm_fill:
  assumes "para_matcher m"
  shows "fill (replace_all m ''<p></p>'' s) = replace_all m ''<p></p>'' (fill s)"
proof (induction s rule: length_induct)
  case (1 s)
  let ?G = "replace_all m ''<p></p>''"
  note t = para_matcherD(1) [OF assms]
  show ?case
  proof (cases "m s")
    case (Some r)
    from para_matcherD(2) [OF assms Some] obtain r1 where "open_p s = Some r1" by blast
    then have "fill s = s" by (rule open_p_excludes)
    moreover have "fill (''<p></p>'' @ ?G r) = ''<p></p>'' @ ?G r"
      by (rule open_p_excludes(4) [of _ "''</p>'' @ ?G r"]) simp
    ultimately show ?thesis by (simp add: replace_match [OF t Some])
  next
    case None
    show ?thesis
    proof (cases s rule: fill_cases)
      case nil
      then show ?thesis by simp
    next
      case (space c cs)
      then have "c \<noteq> CHR ''<''" by auto
      with space 1 show ?thesis by (simp add: replace_other [OF t] fill_space)
    next
      case (nbsp r)
      have "nbsp (?G s) = Some (?G r)" using replace_nbsp [OF t, of "''p></p>''" s] nbsp by simp
      then have "fill (?G s) = fill (?G r)" by (rule fill_nbsp)
      also have "\<dots> = ?G (fill r)" using 1 nbsp_length [OF nbsp] by simp
      finally show ?thesis by (simp add: fill_nbsp [OF nbsp])
    next
      case (br r)
      have "br (?G s) = Some (?G r)" using pm_br [OF assms, of s] br by simp
      then have "fill (?G s) = fill (?G r)" by (rule fill_br)
      also have "\<dots> = ?G (fill r)" using 1 br_length [OF br] by simp
      finally show ?thesis by (simp add: fill_br [OF br])
    next
      case (stop c cs)
      have g: "?G s = c # ?G cs" using None stop(1) by (simp add: replace_copy)
      have "nbsp (?G s) = None" using replace_nbsp [OF t, of "''p></p>''" s] stop by simp
      moreover have "br (?G s) = None" using pm_br [OF assms, of s] stop by simp
      ultimately have "fill (?G s) = ?G s" using stop(2) unfolding g by (simp add: fill_stop)
      moreover have "fill s = s" using stop by (simp add: fill_stop)
      ultimately show ?thesis by simp
    qed
  qed
qed

lemma pm_open_p:
  assumes "para_matcher m" "m s = None"
  shows "open_p (replace_all m ''<p></p>'' s) = map_option (replace_all m ''<p></p>'') (open_p s)"
  using para_matcherD(1) [OF assms(1)] assms(2) by (rule replace_open_p)

lemma pm_empty_p:
  assumes "para_matcher m" "m s = None"
  shows "empty_p (replace_all m ''<p></p>'' s) = map_option (replace_all m ''<p></p>'') (empty_p s)"
proof (cases "open_p s")
  case None
  with pm_open_p [OF assms] show ?thesis by (simp add: empty_p_def)
next
  case (Some r)
  with pm_open_p [OF assms] show ?thesis
    by (simp add: empty_p_def pm_fill [OF assms(1)] pm_close_p [OF assms(1)])
qed

lemma pm_dropWhile:
  assumes "para_matcher m"
  shows "dropWhile is_space (replace_all m ''<p></p>'' s) = replace_all m ''<p></p>'' (dropWhile is_space s)"
  using para_matcherD(1) [OF assms] by (rule replace_dropWhile)

lemma pm_unit_p:
  assumes "para_matcher m" "m s = None"
  shows "unit_p (replace_all m ''<p></p>'' s) = map_option (replace_all m ''<p></p>'') (unit_p s)"
proof (cases "open_p s")
  case None
  with pm_open_p [OF assms] show ?thesis by (simp add: unit_p_def)
next
  case (Some r)
  show ?thesis
  proof (cases "close_p (dropWhile is_space r)")
    case None
    with Some pm_open_p [OF assms] show ?thesis
      by (simp add: unit_p_def pm_dropWhile [OF assms(1)] pm_close_p [OF assms(1)])
  next
    case c: (Some r1)
    with Some pm_open_p [OF assms] show ?thesis
      by (simp add: unit_p_def pm_dropWhile [OF assms(1)] pm_close_p [OF assms(1)])
  qed
qed

lemma pm_copy_para:
  assumes "para_matcher m" "m (''<p></p>'' @ x) = None"
  shows "replace_all m ''<p></p>'' (''<p></p>'' @ x) = ''<p></p>'' @ replace_all m ''<p></p>'' x"
proof -
  note t = para_matcherD(1) [OF assms(1)]
  have "m (''</p>'' @ x) = None"
  proof (cases "m (''</p>'' @ x)")
    case (Some r)
    from para_matcherD(2) [OF assms(1) Some] show ?thesis by (simp add: open_p_not)
  qed simp
  then show ?thesis using assms(2) by (simp add: replace_copy replace_other [OF t])
qed

subsection \<open>The replacement of repeated line breaks\<close>

lemma units_br_br:
  assumes "two_or_more unit_br s = Some r"
  shows "\<exists>r1. br s = Some r1"
proof -
  from two_or_more_Some [OF shrinks_unit_br assms] obtain r1 where "unit_br s = Some r1" by blast
  then show ?thesis by (rule unit_br_br)
qed

lemma fill_unit_br: "unit_br s = Some r \<Longrightarrow> fill s = fill r"
proof -
  assume "unit_br s = Some r"
  then obtain r1 where r: "br s = Some r1" "r = dropWhile is_space r1"
    by (auto simp: unit_br_def split: option.splits)
  then show ?thesis by (simp add: fill_br [OF r(1)] fill_dropWhile)
qed

lemma fill_reps_br: "fill (snd (reps unit_br s)) = fill s"
proof (induction s rule: length_induct)
  case (1 s)
  show ?case
  proof (cases "unit_br s")
    case None
    then show ?thesis by (simp add: reps_None)
  next
    case (Some r)
    from shrinksD [OF shrinks_unit_br Some] 1 have "fill (snd (reps unit_br r)) = fill r" by simp
    then show ?thesis by (simp add: reps_step [OF shrinks_unit_br Some] fill_unit_br [OF Some])
  qed
qed

lemma fill_units_br: "two_or_more unit_br s = Some r \<Longrightarrow> fill s = fill r"
  using fill_reps_br [of s] by (simp add: two_or_more_def case_prod_beta split: if_splits)

lemma not_space_units_br:
  assumes "two_or_more unit_br s = Some r"
  shows "dropWhile is_space r = r"
proof -
  from two_or_more_Some [OF shrinks_unit_br assms] obtain r1 r2
    where r: "unit_br s = Some r1" "unit_br r1 = Some r2" "r = snd (reps unit_br r2)" by blast
  have "dropWhile is_space (snd (reps unit_br t)) = snd (reps unit_br t)"
    if "dropWhile is_space t = t" for t
    using that
  proof (induction t rule: length_induct)
    case (1 t)
    show ?case
    proof (cases "unit_br t")
      case None
      with 1(2) show ?thesis by (simp add: reps_None)
    next
      case (Some u)
      then have "dropWhile is_space u = u" by (auto simp: unit_br_def split: option.splits)
      with shrinksD [OF shrinks_unit_br Some] 1(1)
      have "dropWhile is_space (snd (reps unit_br u)) = snd (reps unit_br u)" by simp
      then show ?thesis by (simp add: reps_step [OF shrinks_unit_br Some])
    qed
  qed
  moreover from r(2) have "dropWhile is_space r2 = r2"
    by (auto simp: unit_br_def split: option.splits)
  ultimately show ?thesis unfolding r(3) by simp
qed

lemma br5_match:
  assumes "two_or_more unit_br s = Some r"
  shows "replace_all (two_or_more unit_br) ''<br/>'' s = ''<br/>'' @ replace_all (two_or_more unit_br) ''<br/>'' r"
  using tagm_units_br assms by (rule replace_match)

lemma br5_open_p:
  "open_p (replace_all (two_or_more unit_br) ''<br/>'' s)
   = map_option (replace_all (two_or_more unit_br) ''<br/>'') (open_p s)"
proof (cases "two_or_more unit_br s")
  case None
  with tagm_units_br show ?thesis by (rule replace_open_p)
next
  case (Some r)
  from units_br_br [OF Some] obtain r1 where "br s = Some r1" by blast
  then have "open_p s = None" by (rule br_excludes)
  then show ?thesis by (simp add: br5_match [OF Some] open_p_not)
qed

lemma br5_close_p:
  "close_p (replace_all (two_or_more unit_br) ''<br/>'' s)
   = map_option (replace_all (two_or_more unit_br) ''<br/>'') (close_p s)"
proof (cases "two_or_more unit_br s")
  case None
  with tagm_units_br show ?thesis by (rule replace_close_p)
next
  case (Some r)
  from units_br_br [OF Some] obtain r1 where "br s = Some r1" by blast
  then have "close_p s = None" by (rule br_excludes)
  then show ?thesis by (simp add: br5_match [OF Some] close_p_not)
qed

lemma br5_dropWhile:
  "dropWhile is_space (replace_all (two_or_more unit_br) ''<br/>'' s)
   = replace_all (two_or_more unit_br) ''<br/>'' (dropWhile is_space s)"
  using tagm_units_br by (rule replace_dropWhile)

lemma br5_unit_p:
  "unit_p (replace_all (two_or_more unit_br) ''<br/>'' s)
   = map_option (replace_all (two_or_more unit_br) ''<br/>'') (unit_p s)"
proof (cases "open_p s")
  case None
  then show ?thesis by (simp add: unit_p_def br5_open_p)
next
  case (Some r)
  show ?thesis
  proof (cases "close_p (dropWhile is_space r)")
    case None
    with Some show ?thesis by (simp add: unit_p_def br5_open_p br5_dropWhile br5_close_p)
  next
    case c: (Some r1)
    with Some show ?thesis by (simp add: unit_p_def br5_open_p br5_dropWhile br5_close_p)
  qed
qed

lemma br5_br:
  assumes "two_or_more unit_br s = None"
  shows "br (replace_all (two_or_more unit_br) ''<br/>'' s)
   = map_option (replace_all (two_or_more unit_br) ''<br/>'') (br s)"
  using tagm_units_br assms by (rule replace_br)

lemma br5_unit_br:
  assumes "two_or_more unit_br s = None"
  shows "unit_br (replace_all (two_or_more unit_br) ''<br/>'' s)
   = map_option (replace_all (two_or_more unit_br) ''<br/>'') (unit_br s)"
  by (cases "br s") (simp_all add: unit_br_def br5_br [OF assms] br5_dropWhile)

lemma br5_fill:
  "fill (replace_all (two_or_more unit_br) ''<br/>'' s)
   = replace_all (two_or_more unit_br) ''<br/>'' (fill s)"
proof (induction s rule: length_induct)
  case (1 s)
  let ?G = "replace_all (two_or_more unit_br) ''<br/>''"
  note t = tagm_units_br
  show ?case
  proof (cases "two_or_more unit_br s")
    case (Some r)
    from tagmD(1) [OF t Some] 1 have "fill (?G r) = ?G (fill r)" by simp
    then show ?thesis by (simp add: br5_match [OF Some] fill_units_br [OF Some])
  next
    case None
    show ?thesis
    proof (cases s rule: fill_cases)
      case nil
      then show ?thesis by simp
    next
      case (space c cs)
      then have "c \<noteq> CHR ''<''" by auto
      with space 1 show ?thesis by (simp add: replace_other [OF t] fill_space)
    next
      case (nbsp r)
      have "nbsp (?G s) = Some (?G r)" using replace_nbsp [OF t, of "''br/>''" s] nbsp by simp
      then have "fill (?G s) = fill (?G r)" by (rule fill_nbsp)
      also have "\<dots> = ?G (fill r)" using 1 nbsp_length [OF nbsp] by simp
      finally show ?thesis by (simp add: fill_nbsp [OF nbsp])
    next
      case (br r)
      have "br (?G s) = Some (?G r)" using br5_br [OF None] br by simp
      then have "fill (?G s) = fill (?G r)" by (rule fill_br)
      also have "\<dots> = ?G (fill r)" using 1 br_length [OF br] by simp
      finally show ?thesis by (simp add: fill_br [OF br])
    next
      case (stop c cs)
      have g: "?G s = c # ?G cs" using None stop(1) by (simp add: replace_copy)
      have "nbsp (?G s) = None" using replace_nbsp [OF t, of "''br/>''" s] stop by simp
      moreover have "br (?G s) = None" using br5_br [OF None] stop by simp
      ultimately have "fill (?G s) = ?G s" using stop(2) unfolding g by (simp add: fill_stop)
      moreover have "fill s = s" using stop by (simp add: fill_stop)
      ultimately show ?thesis by simp
    qed
  qed
qed

lemma br5_empty_p:
  "empty_p (replace_all (two_or_more unit_br) ''<br/>'' s)
   = map_option (replace_all (two_or_more unit_br) ''<br/>'') (empty_p s)"
  by (cases "open_p s") (simp_all add: empty_p_def br5_open_p br5_fill br5_close_p)

lemma units_br_not_open:
  assumes "open_p s = Some r"
  shows "two_or_more unit_br s = None"
proof (cases "two_or_more unit_br s")
  case (Some r')
  from units_br_br [OF Some] obtain r1 where "br s = Some r1" by blast
  from br_excludes(1) [OF this] assms show ?thesis by simp
qed simp

lemma units_br_not_close:
  assumes "close_p s = Some r"
  shows "two_or_more unit_br s = None"
proof (cases "two_or_more unit_br s")
  case (Some r')
  from units_br_br [OF Some] obtain r1 where "br s = Some r1" by blast
  from br_excludes(2) [OF this] assms show ?thesis by simp
qed simp

lemma br5_copy_para:
  "replace_all (two_or_more unit_br) ''<br/>'' (''<p></p>'' @ x)
   = ''<p></p>'' @ replace_all (two_or_more unit_br) ''<br/>'' x"
proof -
  have 1: "two_or_more unit_br (''<p></p>'' @ x) = None"
    by (rule units_br_not_open [of _ "''</p>'' @ x"]) simp
  have 2: "two_or_more unit_br (''</p>'' @ x) = None"
    by (rule units_br_not_close [of _ x]) simp
  from 1 2 show ?thesis by (simp add: replace_copy replace_other [OF tagm_units_br])
qed

subsection \<open>Properties at every position\<close>

lemma everywhere_Nil [simp]: "everywhere P [] = P []"
  by (simp add: everywhere_def)

lemma everywhere_Cons: "everywhere P (c # cs) = (P (c # cs) \<and> everywhere P cs)"
proof
  assume a: "everywhere P (c # cs)"
  have "P (c # cs)" using a [unfolded everywhere_def] by (metis append_Nil)
  moreover have "everywhere P cs"
    unfolding everywhere_def
  proof (intro allI impI)
    fix u t assume "cs = u @ t"
    then have "c # cs = (c # u) @ t" by simp
    with a show "P t" unfolding everywhere_def by blast
  qed
  ultimately show "P (c # cs) \<and> everywhere P cs" by simp
next
  assume a: "P (c # cs) \<and> everywhere P cs"
  show "everywhere P (c # cs)"
    unfolding everywhere_def
  proof (intro allI impI)
    fix u t assume s: "c # cs = u @ t"
    show "P t"
    proof (cases u)
      case Nil
      with s a show ?thesis by simp
    next
      case (Cons d u')
      with s have "cs = u' @ t" by simp
      with a show ?thesis unfolding everywhere_def by blast
    qed
  qed
qed

lemma everywhere_self: "everywhere P s \<Longrightarrow> P s"
  unfolding everywhere_def by (metis append_Nil)

lemma everywhere_suffix: "everywhere P (u @ t) \<Longrightarrow> everywhere P t"
  unfolding everywhere_def by (metis append_assoc)

lemma everywhere_prefix:
  assumes "\<And>t q. P (t @ q) \<Longrightarrow> P t" "everywhere P (p @ q)"
  shows "everywhere P p"
  unfolding everywhere_def
proof (intro allI impI)
  fix u t assume "p = u @ t"
  then have "p @ q = u @ (t @ q)" by simp
  with assms(2) have "P (t @ q)" unfolding everywhere_def by blast
  then show "P t" by (rule assms(1))
qed

lemma everywhere_append:
  assumes "everywhere P t" "\<And>a b. u = a @ b \<Longrightarrow> b \<noteq> [] \<Longrightarrow> P (b @ t)"
  shows "everywhere P (u @ t)"
  using assms(2)
proof (induction u)
  case Nil
  with assms(1) show ?case by simp
next
  case (Cons c u)
  have "P ((c # u) @ t)" using Cons.prems [of "[]" "c # u"] by simp
  moreover have "everywhere P (u @ t)"
  proof (rule Cons.IH)
    fix a b assume "u = a @ b" "b \<noteq> []"
    then show "P (b @ t)" using Cons.prems [of "c # a" b] by simp
  qed
  ultimately show ?case by (simp add: everywhere_Cons)
qed

subsection \<open>What a match leaves is a suffix\<close>

lemma open_p_split: "open_p s = Some r \<Longrightarrow> \<exists>u. s = u @ r"
  unfolding open_p_def by (drule lit_split) blast

lemma close_p_split: "close_p s = Some r \<Longrightarrow> \<exists>u. s = u @ r"
  unfolding close_p_def by (drule lit_split) blast

lemma dropWhile_split: "\<exists>u. s = u @ dropWhile P s"
  by (metis takeWhile_dropWhile_id)

lemma unit_p_split: "unit_p s = Some r \<Longrightarrow> \<exists>u. s = u @ r"
proof -
  assume "unit_p s = Some r"
  then obtain r1 r2 where r: "open_p s = Some r1" "close_p (dropWhile is_space r1) = Some r2"
    "r = dropWhile is_space r2"
    by (auto simp: unit_p_def split: option.splits)
  from open_p_split [OF r(1)] obtain u1 where 1: "s = u1 @ r1" by blast
  from dropWhile_split [of r1 is_space] obtain u2 where 2: "r1 = u2 @ dropWhile is_space r1" by blast
  from close_p_split [OF r(2)] obtain u3 where 3: "dropWhile is_space r1 = u3 @ r2" by blast
  from dropWhile_split [of r2 is_space] obtain u4 where 4: "r2 = u4 @ r" unfolding r(3) by blast
  have "s = (u1 @ u2 @ u3 @ u4) @ r" using 1 2 3 4 by (metis append_assoc)
  then show ?thesis by blast
qed

lemma reps_split:
  assumes "shrinks m" "\<And>s r. m s = Some r \<Longrightarrow> \<exists>u. s = u @ r"
  shows "\<exists>u. s = u @ snd (reps m s)"
proof (induction s rule: length_induct)
  case (1 s)
  show ?case
  proof (cases "m s")
    case None
    then show ?thesis by (simp add: reps_None)
  next
    case (Some r)
    from assms(2) [OF Some] obtain u1 where u1: "s = u1 @ r" by blast
    from shrinksD [OF assms(1) Some] 1 obtain u2 where u2: "r = u2 @ snd (reps m r)" by blast
    have "s = (u1 @ u2) @ snd (reps m r)" using u1 u2 by (metis append_assoc)
    then show ?thesis unfolding reps_step [OF assms(1) Some] by (simp only: snd_conv) blast
  qed
qed

lemma units_p_split: "two_or_more unit_p s = Some r \<Longrightarrow> \<exists>u. s = u @ r"
  using reps_split [OF shrinks_unit_p unit_p_split, of s]
  by (simp add: two_or_more_def case_prod_beta split: if_splits)

lemma some_units_p_split: "one_or_more unit_p s = Some r \<Longrightarrow> \<exists>u. s = u @ r"
  using reps_split [OF shrinks_unit_p unit_p_split, of s]
  by (simp add: one_or_more_def case_prod_beta split: if_splits)

subsection \<open>Fixed points\<close>

lemma replace_all_fixed:
  assumes "everywhere (\<lambda>t. m t = None) s"
  shows "replace_all m rep s = s"
  using assms by (induction s) (simp_all add: everywhere_Cons replace_copy)

lemma replace_empty_p_fixed:
  "everywhere canon s \<Longrightarrow> replace_all empty_p ''<p></p>'' s = s"
proof (induction s rule: length_induct)
  case (1 s)
  show ?case
  proof (cases s)
    case Nil
    then show ?thesis by simp
  next
    case (Cons c cs)
    show ?thesis
    proof (cases "empty_p s")
      case None
      from 1(2) Cons have "everywhere canon cs" by (simp add: everywhere_Cons)
      with 1(1) Cons have "replace_all empty_p ''<p></p>'' cs = cs" by simp
      with None Cons show ?thesis by (simp add: replace_copy)
    next
      case (Some z)
      from everywhere_self [OF 1(2)] Some have s: "s = ''<p></p>'' @ z" by (simp add: canon_def)
      with 1(2) have "everywhere canon z" by (metis everywhere_suffix)
      moreover from s have "length z < length s" by simp
      ultimately have "replace_all empty_p ''<p></p>'' z = z" using 1(1) by simp
      with replace_match [OF tagm_empty_p Some, of "''<p></p>''"] s show ?thesis by simp
    qed
  qed
qed

lemma strip_leading_fixed: "unit_p s = None \<Longrightarrow> strip_leading s = s"
proof -
  assume "unit_p s = None"
  then have "one_or_more unit_p s = None" by (simp add: one_or_more_None [OF shrinks_unit_p])
  then show ?thesis by (simp add: strip_leading_def)
qed

lemma strip_trailing_fixed: "everywhere no_tail_p s \<Longrightarrow> strip_trailing s = s"
  by (induction s) (simp_all add: everywhere_Cons no_tail_p_def)

subsection \<open>Positions inside a replacement text\<close>

lemma everywhere_para:
  assumes "\<And>c cs. c \<noteq> CHR ''<'' \<Longrightarrow> P (c # cs)" and "\<And>cs. P (CHR ''<'' # CHR ''/'' # cs)"
    and "P (''<p></p>'' @ x)" and "everywhere P x"
  shows "everywhere P (''<p></p>'' @ x)"
  using assms(3,4) by (simp add: everywhere_Cons assms(1,2))

lemma everywhere_canonical_br:
  assumes "\<And>c cs. c \<noteq> CHR ''<'' \<Longrightarrow> P (c # cs)"
    and "P (''<br/>'' @ x)" and "everywhere P x"
  shows "everywhere P (''<br/>'' @ x)"
  using assms(2,3) by (simp add: everywhere_Cons assms(1))

lemma unit_p_None: "open_p t = None \<Longrightarrow> unit_p t = None"
  by (simp add: unit_p_def)

lemma empty_p_None: "open_p t = None \<Longrightarrow> empty_p t = None"
  by (simp add: empty_p_def)

lemma units_p_None: "unit_p t = None \<Longrightarrow> two_or_more unit_p t = None"
  by (simp add: two_or_more_None [OF shrinks_unit_p])

lemma some_units_p_None: "unit_p t = None \<Longrightarrow> one_or_more unit_p t = None"
  by (simp add: one_or_more_None [OF shrinks_unit_p])

lemma units_br_None: "unit_br t = None \<Longrightarrow> two_or_more unit_br t = None"
  by (simp add: two_or_more_None [OF shrinks_unit_br])

lemma unit_br_None: "br t = None \<Longrightarrow> unit_br t = None"
  by (simp add: unit_br_def)

lemma canon_open: "open_p t = None \<Longrightarrow> canon t"
  by (simp add: canon_def empty_p_None)

lemma no_run_p_open: "open_p t = None \<Longrightarrow> no_run_p t"
  by (simp add: no_run_p_def units_p_None unit_p_None)

lemma no_tail_p_open: "open_p t = None \<Longrightarrow> no_tail_p t"
  by (simp add: no_tail_p_def some_units_p_None unit_p_None)

lemma no_run_br_br: "br t = None \<Longrightarrow> no_run_br t"
  by (simp add: no_run_br_def units_br_None unit_br_None)

lemma canon_para: "canon (''<p></p>'' @ x)"
  by (simp add: canon_def)

lemma para_matcher_empty_p: "para_matcher empty_p"
  unfolding para_matcher_def
proof (intro conjI allI impI)
  show "tagm empty_p" by (rule tagm_empty_p)
  fix s r assume "empty_p s = Some r"
  then show "open_p s \<noteq> None" by (auto simp: empty_p_def split: option.splits)
qed

lemma para_matcher_units_p: "para_matcher (two_or_more unit_p)"
  unfolding para_matcher_def
proof (intro conjI allI impI)
  show "tagm (two_or_more unit_p)" by (rule tagm_units_p)
  fix s r assume "two_or_more unit_p s = Some r"
  from two_or_more_Some [OF shrinks_unit_p this] obtain r1 where "unit_p s = Some r1" by blast
  from unit_p_open [OF this] show "open_p s \<noteq> None" by auto
qed

lemma everywhere_para_canon:
  assumes "everywhere canon x"
  shows "everywhere canon (''<p></p>'' @ x)"
proof (rule everywhere_para)
  show "canon (c # cs)" if "c \<noteq> CHR ''<''" for c cs
    using that by (simp add: canon_open open_p_not)
  show "canon (CHR ''<'' # CHR ''/'' # cs)" for cs by (simp add: canon_open open_p_not)
  show "canon (''<p></p>'' @ x)" by (rule canon_para)
  show "everywhere canon x" by fact
qed

lemma everywhere_para_no_run_p:
  assumes "no_run_p (''<p></p>'' @ x)" "everywhere no_run_p x"
  shows "everywhere no_run_p (''<p></p>'' @ x)"
proof (rule everywhere_para)
  show "no_run_p (c # cs)" if "c \<noteq> CHR ''<''" for c cs
    using that by (simp add: no_run_p_open open_p_not)
  show "no_run_p (CHR ''<'' # CHR ''/'' # cs)" for cs by (simp add: no_run_p_open open_p_not)
qed fact+

lemma everywhere_br_canon:
  assumes "everywhere canon x"
  shows "everywhere canon (''<br/>'' @ x)"
proof (rule everywhere_canonical_br)
  show "canon (c # cs)" if "c \<noteq> CHR ''<''" for c cs
    using that by (simp add: canon_open open_p_not)
  show "canon (''<br/>'' @ x)" by (simp add: canon_open open_p_not)
qed fact

lemma everywhere_br_no_run_p:
  assumes "everywhere no_run_p x"
  shows "everywhere no_run_p (''<br/>'' @ x)"
proof (rule everywhere_canonical_br)
  show "no_run_p (c # cs)" if "c \<noteq> CHR ''<''" for c cs
    using that by (simp add: no_run_p_open open_p_not)
  show "no_run_p (''<br/>'' @ x)" by (simp add: no_run_p_open open_p_not)
qed fact

lemma everywhere_br_no_tail_p:
  assumes "everywhere no_tail_p x"
  shows "everywhere no_tail_p (''<br/>'' @ x)"
proof (rule everywhere_canonical_br)
  show "no_tail_p (c # cs)" if "c \<noteq> CHR ''<''" for c cs
    using that by (simp add: no_tail_p_open open_p_not)
  show "no_tail_p (''<br/>'' @ x)" by (simp add: no_tail_p_open open_p_not)
qed fact

lemma everywhere_br_no_run_br:
  assumes "no_run_br (''<br/>'' @ x)" "everywhere no_run_br x"
  shows "everywhere no_run_br (''<br/>'' @ x)"
proof (rule everywhere_canonical_br)
  show "no_run_br (c # cs)" if "c \<noteq> CHR ''<''" for c cs
    using that by (simp add: no_run_br_br br_not)
qed fact+

subsection \<open>After the first replacement\<close>

lemma canon_after_empty_p: "everywhere canon (replace_all empty_p ''<p></p>'' s)"
proof (induction s rule: length_induct)
  case (1 s)
  let ?G = "replace_all empty_p ''<p></p>''"
  show ?case
  proof (cases "empty_p s")
    case (Some r)
    from tagmD(1) [OF tagm_empty_p Some] 1 have "everywhere canon (?G r)" by simp
    then have "everywhere canon (''<p></p>'' @ ?G r)" by (rule everywhere_para_canon)
    then show ?thesis by (simp add: replace_match [OF tagm_empty_p Some])
  next
    case None
    show ?thesis
    proof (cases s)
      case Nil
      then show ?thesis by (simp add: canon_open open_p_not)
    next
      case (Cons c cs)
      have "empty_p (?G s) = None"
        using pm_empty_p [OF para_matcher_empty_p None] None by simp
      then have "canon (?G s)" by (simp add: canon_def)
      moreover have "everywhere canon (?G cs)" using 1 Cons by simp
      ultimately show ?thesis using None Cons by (simp add: replace_copy everywhere_Cons)
    qed
  qed
qed

subsection \<open>After the second replacement\<close>

lemma canon_after_units_p:
  "everywhere canon s \<Longrightarrow> everywhere canon (replace_all (two_or_more unit_p) ''<p></p>'' s)"
proof (induction s rule: length_induct)
  case (1 s)
  let ?G = "replace_all (two_or_more unit_p) ''<p></p>''"
  note pm = para_matcher_units_p
  show ?case
  proof (cases "two_or_more unit_p s")
    case (Some r)
    from units_p_split [OF Some] obtain u where "s = u @ r" by blast
    with 1(2) have "everywhere canon r" by (metis everywhere_suffix)
    with tagmD(1) [OF tagm_units_p Some] 1(1) have "everywhere canon (?G r)" by simp
    then have "everywhere canon (''<p></p>'' @ ?G r)" by (rule everywhere_para_canon)
    then show ?thesis by (simp add: replace_match [OF tagm_units_p Some])
  next
    case None
    show ?thesis
    proof (cases s)
      case Nil
      then show ?thesis by (simp add: canon_open open_p_not)
    next
      case (Cons c cs)
      have e: "empty_p (?G s) = map_option ?G (empty_p s)" using pm None by (rule pm_empty_p)
      have "canon (?G s)"
      proof (cases "empty_p s")
        case n: None
        with e show ?thesis by (simp add: canon_def)
      next
        case (Some z)
        from everywhere_self [OF 1(2)] Some have s: "s = ''<p></p>'' @ z" by (simp add: canon_def)
        from None have "two_or_more unit_p (''<p></p>'' @ z) = None" unfolding s .
        from pm_copy_para [OF pm this] have "?G s = ''<p></p>'' @ ?G z" unfolding s .
        with e Some show ?thesis by (simp add: canon_def)
      qed
      moreover have "everywhere canon (?G cs)" using 1 Cons by (simp add: everywhere_Cons)
      ultimately show ?thesis using None Cons by (simp add: replace_copy everywhere_Cons)
    qed
  qed
qed

lemma unit_p_not_space: "unit_p s = Some r \<Longrightarrow> dropWhile is_space r = r"
  by (auto simp: unit_p_def split: option.splits)

lemma reps_not_space:
  assumes "\<And>s r. m s = Some r \<Longrightarrow> dropWhile is_space r = r" "shrinks m"
    and "dropWhile is_space t = t"
  shows "dropWhile is_space (snd (reps m t)) = snd (reps m t)"
  using assms(3)
proof (induction t rule: length_induct)
  case (1 t)
  show ?case
  proof (cases "m t")
    case None
    with 1(2) show ?thesis by (simp add: reps_None)
  next
    case (Some u)
    from assms(1) [OF Some] shrinksD [OF assms(2) Some] 1(1)
    have "dropWhile is_space (snd (reps m u)) = snd (reps m u)" by simp
    then show ?thesis by (simp add: reps_step [OF assms(2) Some])
  qed
qed

lemma units_p_not_space:
  assumes "two_or_more unit_p s = Some r"
  shows "dropWhile is_space r = r"
proof -
  from two_or_more_Some [OF shrinks_unit_p assms] obtain r1 r2
    where r: "unit_p s = Some r1" "unit_p r1 = Some r2" "r = snd (reps unit_p r2)" by blast
  from unit_p_not_space [OF r(2)] show ?thesis
    unfolding r(3) by (intro reps_not_space [OF unit_p_not_space shrinks_unit_p])
qed

lemma some_units_p_not_space:
  assumes "one_or_more unit_p s = Some r"
  shows "dropWhile is_space r = r"
proof -
  from assms obtain r1 where r: "unit_p s = Some r1" "r = snd (reps unit_p r1)"
    unfolding one_or_more_Some [OF shrinks_unit_p] by blast
  from unit_p_not_space [OF r(1)] show ?thesis
    unfolding r(2) by (intro reps_not_space [OF unit_p_not_space shrinks_unit_p])
qed

lemma no_run_after_units_p:
  "everywhere no_run_p (replace_all (two_or_more unit_p) ''<p></p>'' s)"
proof (induction s rule: length_induct)
  case (1 s)
  let ?G = "replace_all (two_or_more unit_p) ''<p></p>''"
  note pm = para_matcher_units_p
  show ?case
  proof (cases "two_or_more unit_p s")
    case (Some r)
    from two_or_more_Some [OF shrinks_unit_p Some] have n: "unit_p r = None" by blast
    then have n2: "two_or_more unit_p r = None" by (rule units_p_None)
    have "unit_p (?G r) = None" using pm_unit_p [OF pm n2] n by simp
    moreover have "dropWhile is_space (?G r) = ?G r"
      by (simp add: pm_dropWhile [OF pm] units_p_not_space [OF Some])
    ultimately have "no_run_p (''<p></p>'' @ ?G r)"
      by (simp add: no_run_p_def two_or_more_None [OF shrinks_unit_p])
    moreover from tagmD(1) [OF tagm_units_p Some] 1 have "everywhere no_run_p (?G r)" by simp
    ultimately have "everywhere no_run_p (''<p></p>'' @ ?G r)" by (rule everywhere_para_no_run_p)
    then show ?thesis by (simp add: replace_match [OF tagm_units_p Some])
  next
    case None
    show ?thesis
    proof (cases s)
      case Nil
      then show ?thesis by (simp add: no_run_p_open open_p_not)
    next
      case (Cons c cs)
      have u: "unit_p (?G s) = map_option ?G (unit_p s)" using pm None by (rule pm_unit_p)
      have "no_run_p (?G s)"
      proof (cases "unit_p s")
        case n: None
        with u show ?thesis by (simp add: no_run_p_def units_p_None)
      next
        case (Some r1)
        with None have n1: "unit_p r1 = None" by (simp add: two_or_more_None [OF shrinks_unit_p])
        then have "two_or_more unit_p r1 = None" by (rule units_p_None)
        from pm_unit_p [OF pm this] n1 have "unit_p (?G r1) = None" by simp
        with u Some show ?thesis by (simp add: no_run_p_def two_or_more_None [OF shrinks_unit_p])
      qed
      moreover have "everywhere no_run_p (?G cs)" using 1 Cons by simp
      ultimately show ?thesis using None Cons by (simp add: replace_copy everywhere_Cons)
    qed
  qed
qed

subsection \<open>Matching in a text that is continued\<close>

lemma empty_p_append: "empty_p t = Some z \<Longrightarrow> empty_p (t @ q) = Some (z @ q)"
proof -
  assume "empty_p t = Some z"
  then obtain r where r: "open_p t = Some r" "close_p (fill r) = Some z"
    by (auto simp: empty_p_def split: option.splits)
  from fill_close_append [OF r(2)] have "fill (r @ q) = fill r @ q" .
  with open_p_append [OF r(1), of q] close_p_append [OF r(2), of q]
  show ?thesis by (simp add: empty_p_def)
qed

lemma dropWhile_append_nonempty:
  "dropWhile P r \<noteq> [] \<Longrightarrow> dropWhile P (r @ q) = dropWhile P r @ q"
  by (metis dropWhile_append1 dropWhile_eq_Nil_conv)

lemma dropWhile_append_empty:
  "dropWhile P r = [] \<Longrightarrow> dropWhile P (r @ q) = dropWhile P q"
  by (metis dropWhile_append2 dropWhile_eq_Nil_conv)

lemma unit_p_append:
  assumes "unit_p t = Some z"
  shows "unit_p (t @ q) = Some (if z = [] then dropWhile is_space q else z @ q)"
proof -
  from assms obtain r1 r2 where r: "open_p t = Some r1" "close_p (dropWhile is_space r1) = Some r2"
    "z = dropWhile is_space r2"
    by (auto simp: unit_p_def split: option.splits)
  from r(2) have "dropWhile is_space r1 \<noteq> []"
    by (cases "dropWhile is_space r1") (simp_all add: close_p_not)
  then have d: "dropWhile is_space (r1 @ q) = dropWhile is_space r1 @ q"
    by (rule dropWhile_append_nonempty)
  have "dropWhile is_space (r2 @ q) = (if z = [] then dropWhile is_space q else z @ q)"
    unfolding r(3) by (simp add: dropWhile_append_nonempty dropWhile_append_empty)
  with open_p_append [OF r(1), of q] close_p_append [OF r(2), of q] d
  show ?thesis by (simp add: unit_p_def)
qed

lemma unit_p_Nil [simp]: "unit_p [] = None"
  by (simp add: unit_p_def open_p_not)

lemma canon_prefix: "canon (t @ q) \<Longrightarrow> canon t"
  unfolding canon_def
proof (intro allI impI)
  fix z assume c: "\<forall>z. empty_p (t @ q) = Some z \<longrightarrow> t @ q = ''<p></p>'' @ z" and e: "empty_p t = Some z"
  from empty_p_append [OF e, of q] c have "t @ q = ''<p></p>'' @ z @ q" by blast
  then have "t @ q = (''<p></p>'' @ z) @ q" by simp
  then show "t = ''<p></p>'' @ z" by (simp only: append_same_eq)
qed

lemma no_run_p_prefix: "no_run_p (t @ q) \<Longrightarrow> no_run_p t"
proof (rule ccontr)
  assume a: "no_run_p (t @ q)" and n: "\<not> no_run_p t"
  from n obtain r where "two_or_more unit_p t = Some r" by (auto simp: no_run_p_def)
  from two_or_more_Some [OF shrinks_unit_p this] obtain z z2
    where z: "unit_p t = Some z" "unit_p z = Some z2" by blast
  from z(2) have "z \<noteq> []" by auto
  with unit_p_append [OF z(1), of q] have 1: "unit_p (t @ q) = Some (z @ q)" by simp
  from unit_p_append [OF z(2), of q] obtain z3 where 2: "unit_p (z @ q) = Some z3" by blast
  from a 1 2 show False by (simp add: no_run_p_def two_or_more_None [OF shrinks_unit_p])
qed

lemma unit_p_prefix: "unit_p (t @ q) = None \<Longrightarrow> unit_p t = None"
proof (cases "unit_p t")
  case (Some z)
  assume "unit_p (t @ q) = None"
  with unit_p_append [OF Some, of q] show ?thesis by simp
qed simp

lemma not_space_prefix: "dropWhile is_space (p @ q) = p @ q \<Longrightarrow> dropWhile is_space p = p"
proof (cases p)
  case Nil
  then show ?thesis by simp
next
  case (Cons a l)
  assume d: "dropWhile is_space (p @ q) = p @ q"
  show ?thesis
  proof (cases "is_space a")
    case True
    with d Cons have "dropWhile is_space (l @ q) = a # l @ q" by simp
    then have "length (dropWhile is_space (l @ q)) = Suc (length (l @ q))" by simp
    moreover have "length (dropWhile is_space (l @ q)) \<le> length (l @ q)"
      by (rule length_dropWhile_le)
    ultimately show ?thesis by simp
  next
    case False
    with Cons show ?thesis by simp
  qed
qed

subsection \<open>Stripping the leading empty paragraphs\<close>

lemma strip_leading_cases:
  obtains (same) "strip_leading s = s" "unit_p s = None"
  | (cut) u r where "strip_leading s = r" "s = u @ r" "unit_p r = None" "dropWhile is_space r = r"
proof (cases "one_or_more unit_p s")
  case None
  then have "unit_p s = None" by (simp add: one_or_more_None [OF shrinks_unit_p])
  moreover from None have "strip_leading s = s" by (simp add: strip_leading_def)
  ultimately show ?thesis by (rule same [rotated])
next
  case (Some r)
  then have 1: "strip_leading s = r" by (simp add: strip_leading_def)
  from some_units_p_split [OF Some] obtain u where 2: "s = u @ r" by blast
  from Some obtain r1 where "r = snd (reps unit_p r1)"
    unfolding one_or_more_Some [OF shrinks_unit_p] by blast
  then have 3: "unit_p r = None" by (simp add: reps_stop [OF shrinks_unit_p])
  from 1 2 3 some_units_p_not_space [OF Some] show ?thesis by (rule cut)
qed

lemma strip_leading_keeps:
  assumes "everywhere P s" "dropWhile is_space s = s"
  shows "everywhere P (strip_leading s)" "unit_p (strip_leading s) = None"
    "dropWhile is_space (strip_leading s) = strip_leading s"
proof -
  show "everywhere P (strip_leading s)"
  proof (cases s rule: strip_leading_cases)
    case same
    with assms show ?thesis by simp
  next
    case (cut u r)
    with assms(1) show ?thesis by (metis everywhere_suffix)
  qed
  show "unit_p (strip_leading s) = None"
    by (cases s rule: strip_leading_cases) simp_all
  show "dropWhile is_space (strip_leading s) = strip_leading s"
    using assms(2) by (cases s rule: strip_leading_cases) simp_all
qed

subsection \<open>Stripping the trailing empty paragraphs\<close>

lemma reps_concat:
  assumes "dropWhile is_space q = q"
  shows "snd (reps unit_p t) = [] \<Longrightarrow> snd (reps unit_p (t @ q)) = snd (reps unit_p q)"
proof (induction t rule: length_induct)
  case (1 t)
  show ?case
  proof (cases "unit_p t")
    case None
    with 1(2) have "t = []" by (simp add: reps_None)
    then show ?thesis by simp
  next
    case (Some z)
    from 1(2) have z: "snd (reps unit_p z) = []" by (simp add: reps_step [OF shrinks_unit_p Some])
    from unit_p_append [OF Some, of q] assms have a: "unit_p (t @ q) = Some (z @ q)" by simp
    from shrinksD [OF shrinks_unit_p Some] 1(1) z
    have "snd (reps unit_p (z @ q)) = snd (reps unit_p q)" by simp
    then show ?thesis by (simp add: reps_step [OF shrinks_unit_p a])
  qed
qed

lemma tail_concat:
  assumes "one_or_more unit_p t = Some []" "one_or_more unit_p q = Some []"
  shows "one_or_more unit_p (t @ q) = Some []"
proof -
  from assms(1) obtain z where z: "unit_p t = Some z" "snd (reps unit_p z) = []"
    unfolding one_or_more_Some [OF shrinks_unit_p] by auto
  from assms(2) obtain y where y: "unit_p q = Some y" "snd (reps unit_p y) = []"
    unfolding one_or_more_Some [OF shrinks_unit_p] by auto
  from unit_p_open [OF y(1)] obtain y1 where "open_p q = Some y1" by blast
  from open_p_lt [OF this] have q: "dropWhile is_space q = q" by auto
  from unit_p_append [OF z(1), of q] q have a: "unit_p (t @ q) = Some (z @ q)" by simp
  have "snd (reps unit_p (z @ q)) = snd (reps unit_p q)" using q z(2) by (rule reps_concat)
  also have "\<dots> = []" using y by (simp add: reps_step [OF shrinks_unit_p y(1)])
  finally show ?thesis using a unfolding one_or_more_Some [OF shrinks_unit_p] by simp
qed

lemma strip_trailing_split:
  "\<exists>q. s = strip_trailing s @ q \<and> (q = [] \<or> one_or_more unit_p q = Some [])
       \<and> (\<forall>u t. strip_trailing s = u @ t \<and> t \<noteq> [] \<longrightarrow> one_or_more unit_p (t @ q) \<noteq> Some [])"
proof (induction s)
  case Nil
  then show ?case by simp
next
  case (Cons c cs)
  show ?case
  proof (cases "one_or_more unit_p (c # cs) = Some []")
    case True
    then show ?thesis by simp
  next
    case False
    from Cons obtain q where q: "cs = strip_trailing cs @ q" "q = [] \<or> one_or_more unit_p q = Some []"
      "\<forall>u t. strip_trailing cs = u @ t \<and> t \<noteq> [] \<longrightarrow> one_or_more unit_p (t @ q) \<noteq> Some []"
      by blast
    have 1: "c # cs = strip_trailing (c # cs) @ q" using False q(1) by simp
    have 3: "one_or_more unit_p (t @ q) \<noteq> Some []"
      if "strip_trailing (c # cs) = u @ t" "t \<noteq> []" for u t
    proof (cases u)
      case Nil
      with that(1) 1 have "t @ q = c # cs" by simp
      with False show ?thesis by simp
    next
      case (Cons d u')
      with that(1) False have "strip_trailing cs = u' @ t" by simp
      with q(3) that(2) show ?thesis by blast
    qed
    from 1 q(2) 3 show ?thesis by blast
  qed
qed

lemma no_tail_after_strip: "everywhere no_tail_p (strip_trailing s)"
proof -
  from strip_trailing_split [of s] obtain q
    where q: "s = strip_trailing s @ q" "q = [] \<or> one_or_more unit_p q = Some []"
      "\<forall>u t. strip_trailing s = u @ t \<and> t \<noteq> [] \<longrightarrow> one_or_more unit_p (t @ q) \<noteq> Some []"
    by blast
  show ?thesis
    unfolding everywhere_def
  proof (intro allI impI)
    fix u t assume s: "strip_trailing s = u @ t"
    show "no_tail_p t"
    proof (cases "t = []")
      case True
      then show ?thesis by (simp add: no_tail_p_def some_units_p_None)
    next
      case False
      with q(3) s have n: "one_or_more unit_p (t @ q) \<noteq> Some []" by blast
      show ?thesis
        unfolding no_tail_p_def
      proof
        assume t: "one_or_more unit_p t = Some []"
        from q(2) show False
        proof
          assume "q = []"
          with n t show False by simp
        next
          assume "one_or_more unit_p q = Some []"
          with t have "one_or_more unit_p (t @ q) = Some []" by (rule tail_concat)
          with n show False by simp
        qed
      qed
    qed
  qed
qed

lemma strip_trailing_prefix: "\<exists>q. s = strip_trailing s @ q"
  using strip_trailing_split [of s] by blast

lemma strip_trailing_keeps:
  assumes "everywhere canon s" "everywhere no_run_p s" "unit_p s = None" "dropWhile is_space s = s"
  shows "clean (strip_trailing s)"
proof -
  from strip_trailing_prefix [of s] obtain q where q: "s = strip_trailing s @ q" by blast
  have "everywhere canon (strip_trailing s)"
    using canon_prefix assms(1) [unfolded q [symmetric]] q by (metis everywhere_prefix)
  moreover have "everywhere no_run_p (strip_trailing s)"
    using no_run_p_prefix assms(2) q by (metis everywhere_prefix)
  moreover have "unit_p (strip_trailing s) = None"
    using assms(3) q by (metis unit_p_prefix)
  moreover have "dropWhile is_space (strip_trailing s) = strip_trailing s"
    using assms(4) q by (metis not_space_prefix)
  ultimately show ?thesis by (simp add: clean_def no_tail_after_strip)
qed

subsection \<open>After the replacement of repeated line breaks\<close>

lemma opt_slash_split: "\<exists>u. x = u @ opt_slash x"
proof (cases x)
  case Nil
  then show ?thesis by (simp add: opt_slash_def)
next
  case (Cons c cs)
  show ?thesis
  proof (cases "c = CHR ''/''")
    case True
    with Cons have "x = [c] @ opt_slash x" by (simp add: opt_slash_def)
    then show ?thesis by blast
  next
    case False
    with Cons have "x = [] @ opt_slash x" by (simp add: opt_slash_def)
    then show ?thesis by blast
  qed
qed

lemma unit_br_split: "unit_br s = Some r \<Longrightarrow> \<exists>u. s = u @ r"
proof -
  assume "unit_br s = Some r"
  then obtain r1 where r: "br s = Some r1" "r = dropWhile is_space r1"
    by (auto simp: unit_br_def split: option.splits)
  from r(1) obtain r0 where r0: "lit [ch CHR ''<'', either CHR ''b'' CHR ''B'', either CHR ''r'' CHR ''R''] s = Some r0"
    and r1: "lit [ch CHR ''>''] (opt_slash (dropWhile is_space r0)) = Some r1"
    by (simp add: br_def split: option.splits)
  from lit_split [OF r0] obtain u0 where 0: "s = u0 @ r0" by blast
  from dropWhile_split [of r0 is_space] obtain u1 where 1: "r0 = u1 @ dropWhile is_space r0" by blast
  from opt_slash_split [of "dropWhile is_space r0"] obtain u2 where 2: "dropWhile is_space r0 = u2 @ opt_slash (dropWhile is_space r0)" by blast
  from lit_split [OF r1] obtain u3 where 3: "opt_slash (dropWhile is_space r0) = u3 @ r1" by blast
  from dropWhile_split [of r1 is_space] obtain u4 where 4: "r1 = u4 @ r" unfolding r(2) by blast
  have "s = (u0 @ u1 @ u2 @ u3 @ u4) @ r" using 0 1 2 3 4 by (metis append_assoc)
  then show ?thesis by blast
qed

lemma units_br_split: "two_or_more unit_br s = Some r \<Longrightarrow> \<exists>u. s = u @ r"
  using reps_split [OF shrinks_unit_br unit_br_split, of s]
  by (simp add: two_or_more_def case_prod_beta split: if_splits)

lemma br5_everywhere:
  assumes "\<And>t. P t \<Longrightarrow> P (replace_all (two_or_more unit_br) ''<br/>'' t)"
    and "\<And>x. everywhere P x \<Longrightarrow> everywhere P (''<br/>'' @ x)"
  shows "everywhere P z \<Longrightarrow> everywhere P (replace_all (two_or_more unit_br) ''<br/>'' z)"
proof (induction z rule: length_induct)
  case (1 z)
  let ?G = "replace_all (two_or_more unit_br) ''<br/>''"
  show ?case
  proof (cases "two_or_more unit_br z")
    case (Some r)
    from units_br_split [OF Some] obtain u where "z = u @ r" by blast
    with 1(2) have "everywhere P r" by (metis everywhere_suffix)
    with tagmD(1) [OF tagm_units_br Some] 1(1) have "everywhere P (?G r)" by simp
    then have "everywhere P (''<br/>'' @ ?G r)" by (rule assms(2))
    then show ?thesis by (simp add: br5_match [OF Some])
  next
    case None
    show ?thesis
    proof (cases z)
      case Nil
      with 1(2) show ?thesis by simp
    next
      case (Cons c cs)
      from everywhere_self [OF 1(2)] have "P (?G z)" by (rule assms(1))
      moreover have "everywhere P (?G cs)" using 1 Cons by (simp add: everywhere_Cons)
      ultimately show ?thesis using None Cons by (simp add: replace_copy everywhere_Cons)
    qed
  qed
qed

lemma br5_canon:
  assumes "canon t"
  shows "canon (replace_all (two_or_more unit_br) ''<br/>'' t)"
proof (cases "empty_p t")
  case None
  then show ?thesis by (simp add: canon_def br5_empty_p)
next
  case (Some z)
  with assms have "t = ''<p></p>'' @ z" by (simp add: canon_def)
  then have "replace_all (two_or_more unit_br) ''<br/>'' t
      = ''<p></p>'' @ replace_all (two_or_more unit_br) ''<br/>'' z"
    by (simp only: br5_copy_para)
  with Some show ?thesis by (simp add: canon_def br5_empty_p)
qed

lemma br5_reps_p:
  "reps unit_p (replace_all (two_or_more unit_br) ''<br/>'' s)
   = (fst (reps unit_p s), replace_all (two_or_more unit_br) ''<br/>'' (snd (reps unit_p s)))"
  using shrinks_unit_p br5_unit_p by (rule reps_map)

lemma br5_no_run_p:
  assumes "no_run_p t"
  shows "no_run_p (replace_all (two_or_more unit_br) ''<br/>'' t)"
  using assms by (simp add: no_run_p_def two_or_more_def br5_reps_p case_prod_beta split: if_splits)

lemma br5_no_tail_p:
  assumes "no_tail_p t"
  shows "no_tail_p (replace_all (two_or_more unit_br) ''<br/>'' t)"
  using assms
  by (simp add: no_tail_p_def one_or_more_def br5_reps_p case_prod_beta
      replace_eq_Nil [OF tagm_units_br] split: if_splits)

lemma br5_clean:
  assumes "clean z"
  shows "clean (replace_all (two_or_more unit_br) ''<br/>'' z)"
proof -
  from assms have a: "everywhere canon z" "everywhere no_run_p z" "unit_p z = None"
    "everywhere no_tail_p z" "dropWhile is_space z = z"
    by (simp_all add: clean_def)
  let ?G = "replace_all (two_or_more unit_br) ''<br/>''"
  have "everywhere canon (?G z)"
    using br5_canon everywhere_br_canon a(1) by (rule br5_everywhere)
  moreover have "everywhere no_run_p (?G z)"
    using br5_no_run_p everywhere_br_no_run_p a(2) by (rule br5_everywhere)
  moreover have "unit_p (?G z) = None" using a(3) by (simp add: br5_unit_p)
  moreover have "everywhere no_tail_p (?G z)"
    using br5_no_tail_p everywhere_br_no_tail_p a(4) by (rule br5_everywhere)
  moreover have "dropWhile is_space (?G z) = ?G z" using a(5) by (simp add: br5_dropWhile)
  ultimately show ?thesis by (simp add: clean_def)
qed

lemma br5_unit_br_stop:
  assumes "unit_br r = None"
  shows "unit_br (replace_all (two_or_more unit_br) ''<br/>'' r) = None"
  using br5_unit_br [OF units_br_None [OF assms]] assms by simp

lemma no_run_after_units_br:
  "everywhere no_run_br (replace_all (two_or_more unit_br) ''<br/>'' s)"
proof (induction s rule: length_induct)
  case (1 s)
  let ?G = "replace_all (two_or_more unit_br) ''<br/>''"
  show ?case
  proof (cases "two_or_more unit_br s")
    case (Some r)
    from two_or_more_Some [OF shrinks_unit_br Some] have n: "unit_br r = None" by blast
    have "unit_br (?G r) = None" using n by (rule br5_unit_br_stop)
    moreover have "dropWhile is_space (?G r) = ?G r"
      by (simp add: br5_dropWhile not_space_units_br [OF Some])
    ultimately have "no_run_br (''<br/>'' @ ?G r)"
      by (simp add: no_run_br_def two_or_more_None [OF shrinks_unit_br])
    moreover from tagmD(1) [OF tagm_units_br Some] 1 have "everywhere no_run_br (?G r)" by simp
    ultimately have "everywhere no_run_br (''<br/>'' @ ?G r)" by (rule everywhere_br_no_run_br)
    then show ?thesis by (simp add: br5_match [OF Some])
  next
    case None
    show ?thesis
    proof (cases s)
      case Nil
      then show ?thesis by (simp add: no_run_br_br br_not)
    next
      case (Cons c cs)
      have u: "unit_br (?G s) = map_option ?G (unit_br s)" using None by (rule br5_unit_br)
      have "no_run_br (?G s)"
      proof (cases "unit_br s")
        case n: None
        with u show ?thesis by (simp add: no_run_br_def units_br_None)
      next
        case (Some r1)
        with None have "unit_br r1 = None" by (simp add: two_or_more_None [OF shrinks_unit_br])
        then have "unit_br (?G r1) = None" by (rule br5_unit_br_stop)
        with u Some show ?thesis by (simp add: no_run_br_def two_or_more_None [OF shrinks_unit_br])
      qed
      moreover have "everywhere no_run_br (?G cs)" using 1 Cons by simp
      ultimately show ?thesis using None Cons by (simp add: replace_copy everywhere_Cons)
    qed
  qed
qed

subsection \<open>Trimming\<close>

lemma rev_split: "w = rev (dropWhile P (rev w)) @ rev (takeWhile P (rev w))"
proof -
  have "rev (takeWhile P (rev w) @ dropWhile P (rev w)) = rev (rev w)"
    by (simp only: takeWhile_dropWhile_id)
  then show ?thesis by (simp only: rev_append rev_rev_ident)
qed

lemma trim_no_leading: "dropWhile is_space (trim x) = trim x"
proof -
  let ?y = "dropWhile is_space x"
  have "?y = trim x @ rev (takeWhile is_space (rev ?y))"
    unfolding trim_def by (rule rev_split)
  moreover have "dropWhile is_space ?y = ?y" by (simp add: dropWhile_idem)
  ultimately have "dropWhile is_space (trim x @ rev (takeWhile is_space (rev ?y)))
      = trim x @ rev (takeWhile is_space (rev ?y))" by simp
  then show ?thesis by (rule not_space_prefix)
qed

lemma trim_trim: "trim (trim x) = trim x"
proof -
  have "trim (trim x) = rev (dropWhile is_space (rev (trim x)))"
    unfolding trim_def [of "trim x"] by (simp only: trim_no_leading)
  also have "rev (trim x) = dropWhile is_space (rev (dropWhile is_space x))"
    by (simp add: trim_def)
  also have "rev (dropWhile is_space (dropWhile is_space (rev (dropWhile is_space x)))) = trim x"
    by (simp add: dropWhile_idem trim_def)
  finally show ?thesis .
qed

lemma trim_split:
  assumes "dropWhile is_space w = w"
  shows "\<exists>q. w = trim w @ q \<and> dropWhile is_space q = []"
proof -
  have "w = trim w @ rev (takeWhile is_space (rev w))"
    unfolding trim_def assms by (rule rev_split)
  moreover have "dropWhile is_space (rev (takeWhile is_space (rev w))) = []"
    by (simp add: dropWhile_eq_Nil_conv) (metis set_takeWhileD)
  ultimately show ?thesis by blast
qed

lemma everywhere_front:
  assumes "\<And>t. P (t @ q) \<Longrightarrow> P t" "everywhere P (p @ q)"
  shows "everywhere P p"
  unfolding everywhere_def
proof (intro allI impI)
  fix u t assume "p = u @ t"
  then have "p @ q = u @ (t @ q)" by simp
  with assms(2) have "P (t @ q)" unfolding everywhere_def by blast
  then show "P t" by (rule assms(1))
qed

lemma reps_spaces:
  assumes "dropWhile is_space q = []"
  shows "unit_p t \<noteq> None \<Longrightarrow> snd (reps unit_p t) = [] \<Longrightarrow> snd (reps unit_p (t @ q)) = []"
proof (induction t rule: length_induct)
  case (1 t)
  from 1(2) obtain z where z: "unit_p t = Some z" by blast
  from 1(3) have s: "snd (reps unit_p z) = []" by (simp add: reps_step [OF shrinks_unit_p z])
  show ?case
  proof (cases "z = []")
    case True
    with unit_p_append [OF z, of q] assms have "unit_p (t @ q) = Some []" by simp
    then show ?thesis by (simp add: reps_step [OF shrinks_unit_p] reps_None)
  next
    case False
    with unit_p_append [OF z, of q] have a: "unit_p (t @ q) = Some (z @ q)" by simp
    have "unit_p z \<noteq> None"
    proof
      assume "unit_p z = None"
      with s have "z = []" by (simp add: reps_None)
      with False show False by simp
    qed
    with 1(1) shrinksD [OF shrinks_unit_p z] s have "snd (reps unit_p (z @ q)) = []" by simp
    then show ?thesis by (simp add: reps_step [OF shrinks_unit_p a])
  qed
qed

lemma no_tail_p_spaces:
  assumes "dropWhile is_space q = []" "no_tail_p (t @ q)"
  shows "no_tail_p t"
proof (rule ccontr)
  assume "\<not> no_tail_p t"
  then have "one_or_more unit_p t = Some []" by (simp add: no_tail_p_def)
  then obtain z where z: "unit_p t = Some z" "snd (reps unit_p z) = []"
    unfolding one_or_more_Some [OF shrinks_unit_p] by auto
  then have "snd (reps unit_p t) = []" by (simp add: reps_step [OF shrinks_unit_p z(1)])
  with z(1) have r: "snd (reps unit_p (t @ q)) = []" by (simp add: reps_spaces [OF assms(1)])
  from unit_p_append [OF z(1), of q] obtain z' where z': "unit_p (t @ q) = Some z'" by blast
  with r have "snd (reps unit_p z') = []" by (simp add: reps_step [OF shrinks_unit_p z'])
  with z' have "one_or_more unit_p (t @ q) = Some []"
    unfolding one_or_more_Some [OF shrinks_unit_p] by simp
  with assms(2) show False by (simp add: no_tail_p_def)
qed

lemma unit_br_append:
  assumes "unit_br t = Some z"
  shows "\<exists>z'. unit_br (t @ q) = Some z'"
proof -
  from assms obtain r where "br t = Some r" by (auto simp: unit_br_def split: option.splits)
  from br_append [OF this, of q] show ?thesis by (simp add: unit_br_def)
qed

lemma unit_br_append_more:
  assumes "unit_br t = Some z" "z \<noteq> []"
  shows "unit_br (t @ q) = Some (z @ q)"
proof -
  from assms obtain r where r: "br t = Some r" "z = dropWhile is_space r"
    by (auto simp: unit_br_def split: option.splits)
  from br_append [OF r(1), of q] assms(2) r(2) show ?thesis
    by (simp add: unit_br_def dropWhile_append_nonempty)
qed

lemma no_run_br_prefix: "no_run_br (t @ q) \<Longrightarrow> no_run_br t"
proof (rule ccontr)
  assume a: "no_run_br (t @ q)" and n: "\<not> no_run_br t"
  from n obtain r where "two_or_more unit_br t = Some r" by (auto simp: no_run_br_def)
  from two_or_more_Some [OF shrinks_unit_br this] obtain z z2
    where z: "unit_br t = Some z" "unit_br z = Some z2" by blast
  from z(2) have "z \<noteq> []" by (auto simp: unit_br_def br_not)
  with z(1) have 1: "unit_br (t @ q) = Some (z @ q)" by (rule unit_br_append_more)
  from unit_br_append [OF z(2), of q] obtain z3 where 2: "unit_br (z @ q) = Some z3" by blast
  from a 1 2 show False by (simp add: no_run_br_def two_or_more_None [OF shrinks_unit_br])
qed

lemma trim_normal:
  assumes "clean w" "everywhere no_run_br w"
  shows "normal (trim w)"
proof -
  from assms(1) have a: "everywhere canon w" "everywhere no_run_p w" "unit_p w = None"
    "everywhere no_tail_p w" "dropWhile is_space w = w"
    by (simp_all add: clean_def)
  from trim_split [OF a(5)] obtain q where q: "w = trim w @ q" "dropWhile is_space q = []"
    by blast
  have "everywhere canon (trim w @ q)" using a(1) q(1) by simp
  with canon_prefix have 1: "everywhere canon (trim w)" by (rule everywhere_front)
  have "everywhere no_run_p (trim w @ q)" using a(2) q(1) by simp
  with no_run_p_prefix have 2: "everywhere no_run_p (trim w)" by (rule everywhere_front)
  have "unit_p (trim w @ q) = None" using a(3) q(1) by simp
  then have 3: "unit_p (trim w) = None" by (rule unit_p_prefix)
  have "everywhere no_tail_p (trim w @ q)" using a(4) q(1) by simp
  with no_tail_p_spaces [OF q(2)] have 4: "everywhere no_tail_p (trim w)" by (rule everywhere_front)
  have "everywhere no_run_br (trim w @ q)" using assms(2) q(1) by simp
  with no_run_br_prefix have 5: "everywhere no_run_br (trim w)" by (rule everywhere_front)
  show ?thesis using 1 2 3 4 5 by (simp add: normal_def clean_def trim_no_leading trim_trim)
qed

subsection \<open>The result of a cleaning is left alone by a second one\<close>

lemma cleanHtml_normal: "normal (cleanHtml x)"
proof (cases "x = []")
  case True
  then have "cleanHtml x = []" by (simp add: cleanHtml_def)
  then show ?thesis
    by (simp add: normal_def clean_def trim_def no_run_br_br br_not
        canon_open no_run_p_open no_tail_p_open open_p_not)
next
  case False
  define h0 where "h0 = trim x"
  define h1 where "h1 = replace_all empty_p ''<p></p>'' h0"
  define h2 where "h2 = replace_all (two_or_more unit_p) ''<p></p>'' h1"
  define h3 where "h3 = strip_leading h2"
  define h4 where "h4 = strip_trailing h3"
  define h5 where "h5 = replace_all (two_or_more unit_br) ''<br/>'' h4"
  have c: "cleanHtml x = trim h5"
    using False by (simp add: cleanHtml_def Let_def h0_def h1_def h2_def h3_def h4_def h5_def)
  have l0: "dropWhile is_space h0 = h0" unfolding h0_def by (rule trim_no_leading)
  have l1: "dropWhile is_space h1 = h1"
    unfolding h1_def using l0 by (simp add: replace_dropWhile [OF tagm_empty_p])
  have l2: "dropWhile is_space h2 = h2"
    unfolding h2_def using l1 by (simp add: replace_dropWhile [OF tagm_units_p])
  have c1: "everywhere canon h1" unfolding h1_def by (rule canon_after_empty_p)
  have c2: "everywhere canon h2" unfolding h2_def using c1 by (rule canon_after_units_p)
  have n2: "everywhere no_run_p h2" unfolding h2_def by (rule no_run_after_units_p)
  have c3: "everywhere canon h3" unfolding h3_def using c2 l2 by (rule strip_leading_keeps(1))
  have n3: "everywhere no_run_p h3" unfolding h3_def using n2 l2 by (rule strip_leading_keeps(1))
  have u3: "unit_p h3 = None" unfolding h3_def using c2 l2 by (rule strip_leading_keeps(2))
  have l3: "dropWhile is_space h3 = h3" unfolding h3_def using c2 l2 by (rule strip_leading_keeps(3))
  have "clean h4" unfolding h4_def using c3 n3 u3 l3 by (rule strip_trailing_keeps)
  then have "clean h5" unfolding h5_def by (rule br5_clean)
  moreover have "everywhere no_run_br h5" unfolding h5_def by (rule no_run_after_units_br)
  ultimately show ?thesis unfolding c by (rule trim_normal)
qed

lemma normal_fixed:
  assumes "normal y"
  shows "cleanHtml y = y"
proof -
  from assms have a: "everywhere canon y" "everywhere no_run_p y" "unit_p y = None"
    "everywhere no_tail_p y" "everywhere no_run_br y" "trim y = y"
    by (simp_all add: normal_def clean_def)
  have 1: "replace_all empty_p ''<p></p>'' y = y" using a(1) by (rule replace_empty_p_fixed)
  have 2: "replace_all (two_or_more unit_p) ''<p></p>'' y = y"
    using a(2) by (simp add: replace_all_fixed no_run_p_def [abs_def])
  have 3: "strip_leading y = y" using a(3) by (rule strip_leading_fixed)
  have 4: "strip_trailing y = y" using a(4) by (rule strip_trailing_fixed)
  have 5: "replace_all (two_or_more unit_br) ''<br/>'' y = y"
    using a(5) by (simp add: replace_all_fixed no_run_br_def [abs_def])
  show ?thesis by (simp only: cleanHtml_def Let_def a(6) 1 2 3 4 5 if_cancel split: if_splits) simp
qed

text \<open>
  Claim C1. Cleaning is idempotent: for every string \<open>x\<close>, cleaning the result
  of \<open>cleanHtml x\<close> once more gives back \<open>cleanHtml x\<close>. The
  theorem holds for every input of the model, the empty string included; the result of a
  cleaning is \<open>normal\<close>, and each of the seven steps of \<open>cleanHtml\<close>
  is the identity on a normal string.
\<close>

theorem cleanHtml_idempotent: "cleanHtml (cleanHtml x) = cleanHtml x"
  using cleanHtml_normal by (rule normal_fixed)


end
